theory Spec2Isabelle
  imports Main "HOL-Library.Word" "HOL-Library.Monad_Syntax"
begin

unbundle bit_operations_syntax

section \<open>Session tickets of \<^verbatim>\<open>ticket.go\<close>: data model\<close>

text \<open>
  The development embeds \<^verbatim>\<open>src/ticket.go\<close>: the two session states with their
  \<^verbatim>\<open>equal\<close>, \<^verbatim>\<open>marshal\<close> and \<^verbatim>\<open>unmarshal\<close> methods, and the sealing and opening of
  tickets (\<^verbatim>\<open>encryptTicket\<close>, \<^verbatim>\<open>decryptTicket\<close>).

  A Go \<^verbatim>\<open>byte\<close> is an 8-bit word, \<^verbatim>\<open>[]byte\<close> is a list of bytes, and a Go
  \<^verbatim>\<open>string\<close> is an immutable sequence of arbitrary bytes, so that the conversion
  \<^verbatim>\<open>string(b)\<close> keeps the content; both are lists of bytes here. A nil slice and an
  empty slice are the same list: \<^verbatim>\<open>bytes.Equal\<close> and \<^verbatim>\<open>len\<close> do not tell them apart.
\<close>

type_synonym byte = "8 word"
type_synonym uint16 = "16 word"
type_synonym uint32 = "32 word"
type_synonym uint64 = "64 word"
type_synonym gostring = "byte list"

text \<open>
  Go's \<^verbatim>\<open>int\<close> has 32 or 64 bits, depending on the platform. The width is a
  parameter of the decoders: a value of type \<^verbatim>\<open>int\<close> is an integer of HOL, and a left
  shift wraps around in two's complement at the width of the platform.
\<close>

datatype arch = Int32 | Int64

fun intSize :: "arch \<Rightarrow> nat" where
  "intSize Int32 = 32"
| "intSize Int64 = 64"

definition goInt :: "arch \<Rightarrow> int \<Rightarrow> int" where
  "goInt a x = signed_take_bit (intSize a - 1) x"

definition shl :: "arch \<Rightarrow> int \<Rightarrow> nat \<Rightarrow> int" where
  "shl a x n = goInt a (push_bit n x)"

definition maxInt :: "arch \<Rightarrow> int" where
  "maxInt a = 2 ^ (intSize a - 1) - 1"

text \<open>\<^verbatim>\<open>len(x)\<close>, of type \<^verbatim>\<open>int\<close>, and the conversion \<^verbatim>\<open>byte(n)\<close> of an \<^verbatim>\<open>int\<close>,
  which keeps the low eight bits.\<close>

definition len :: "'a list \<Rightarrow> int" where
  "len xs = int (length xs)"

definition byte_of_int :: "int \<Rightarrow> byte" where
  "byte_of_int n = word_of_int n"

text \<open>
  Indexing and slicing panic out of range in Go. The run-time panic is the value
  \<open>None\<close>: \<open>index\<close> is \<^verbatim>\<open>x[i]\<close>, \<open>sliceFrom\<close> is \<^verbatim>\<open>x[n:]\<close>, \<open>sliceTo\<close> is
  \<^verbatim>\<open>x[:n]\<close>, \<open>slice\<close> is \<^verbatim>\<open>x[lo:hi]\<close>, \<open>assignIdx\<close> is \<^verbatim>\<open>x[i] = v\<close> and
  \<open>makeSlices\<close> is \<^verbatim>\<open>make([][]byte, n)\<close>.
\<close>

definition index :: "'a list \<Rightarrow> int \<Rightarrow> 'a option" where
  "index xs i = (if 0 \<le> i \<and> i < len xs then Some (xs ! nat i) else None)"

definition sliceFrom :: "'a list \<Rightarrow> int \<Rightarrow> 'a list option" where
  "sliceFrom xs n = (if 0 \<le> n \<and> n \<le> len xs then Some (drop (nat n) xs) else None)"

definition sliceTo :: "'a list \<Rightarrow> int \<Rightarrow> 'a list option" where
  "sliceTo xs n = (if 0 \<le> n \<and> n \<le> len xs then Some (take (nat n) xs) else None)"

definition slice :: "'a list \<Rightarrow> int \<Rightarrow> int \<Rightarrow> 'a list option" where
  "slice xs lo hi =
     (if 0 \<le> lo \<and> lo \<le> hi \<and> hi \<le> len xs
      then Some (take (nat hi - nat lo) (drop (nat lo) xs)) else None)"

definition assignIdx :: "'a list \<Rightarrow> int \<Rightarrow> 'a \<Rightarrow> 'a list option" where
  "assignIdx xs i v = (if 0 \<le> i \<and> i < len xs then Some (xs[nat i := v]) else None)"

definition makeSlices :: "int \<Rightarrow> 'a list list option" where
  "makeSlices n = (if 0 \<le> n then Some (replicate (nat n) []) else None)"

text \<open>
  \<^verbatim>\<open>copy(dst, src)\<close> copies as many elements as the shorter of the two has, and never
  panics. \<^verbatim>\<open>make([]byte, n)\<close> panics when \<open>n\<close> is negative; that the memory is there is
  no part of the model. Addition on \<^verbatim>\<open>int\<close> wraps around.
\<close>

definition copy :: "'a list \<Rightarrow> 'a list \<Rightarrow> 'a list" where
  "copy dst src = take (length dst) src @ drop (length src) dst"

definition makeBytes :: "int \<Rightarrow> byte list option" where
  "makeBytes n = (if 0 \<le> n then Some (replicate (nat n) 0) else None)"

definition addInt :: "arch \<Rightarrow> int \<Rightarrow> int \<Rightarrow> int" where
  "addInt a x y = goInt a (x + y)"

text \<open>
  The encoders write through a slice \<^verbatim>\<open>x\<close> that is a window onto the end of the buffer
  they allocated, and move the window forward with \<^verbatim>\<open>x = x[n:]\<close>. A cursor is the pair
  of the bytes of the buffer before the window and the bytes of the window: the buffer is
  the first followed by the second. \<open>put\<close> is \<^verbatim>\<open>x[i] = v\<close>, \<open>copyTo\<close> is \<^verbatim>\<open>copy(x, src)\<close>, \<open>copyAt\<close> is
  \<^verbatim>\<open>copy(x[n:], src)\<close> and \<open>advance\<close> is \<^verbatim>\<open>x = x[n:]\<close>; each panics as the index or
  the slice expression does.
\<close>

type_synonym cursor = "byte list \<times> byte list"

definition put :: "cursor \<Rightarrow> int \<Rightarrow> byte \<Rightarrow> cursor option" where
  "put w i v = do { x \<leftarrow> assignIdx (snd w) i v; Some (fst w, x) }"

definition copyTo :: "cursor \<Rightarrow> byte list \<Rightarrow> cursor" where
  "copyTo w src = (fst w, copy (snd w) src)"

definition copyAt :: "cursor \<Rightarrow> int \<Rightarrow> byte list \<Rightarrow> cursor option" where
  "copyAt w n src =
     do { dst \<leftarrow> sliceFrom (snd w) n; Some (fst w, take (nat n) (snd w) @ copy dst src) }"

definition advance :: "cursor \<Rightarrow> int \<Rightarrow> cursor option" where
  "advance w n =
     do { x \<leftarrow> sliceFrom (snd w) n; Some (fst w @ take (nat n) (snd w), x) }"

subsection \<open>Big-endian integers\<close>

text \<open>The encoders write \<^verbatim>\<open>byte(v >> 8), byte(v)\<close> and so on; the decoders read
  \<^verbatim>\<open>uint16(d0)<<8 | uint16(d1)\<close> on unsigned words and
  \<^verbatim>\<open>int(d0)<<8 | int(d1)\<close> on \<^verbatim>\<open>int\<close>.\<close>

definition put16 :: "uint16 \<Rightarrow> byte list" where
  "put16 v = [ucast (drop_bit 8 v), ucast v]"

definition put32 :: "uint32 \<Rightarrow> byte list" where
  "put32 v = [ucast (drop_bit 24 v), ucast (drop_bit 16 v), ucast (drop_bit 8 v), ucast v]"

definition put64 :: "uint64 \<Rightarrow> byte list" where
  "put64 v = [ucast (drop_bit 56 v), ucast (drop_bit 48 v), ucast (drop_bit 40 v),
              ucast (drop_bit 32 v), ucast (drop_bit 24 v), ucast (drop_bit 16 v),
              ucast (drop_bit 8 v), ucast v]"

definition putLen16 :: "int \<Rightarrow> byte list" where
  "putLen16 n = [byte_of_int (drop_bit 8 n), byte_of_int n]"

definition putLen32 :: "int \<Rightarrow> byte list" where
  "putLen32 n = [byte_of_int (drop_bit 24 n), byte_of_int (drop_bit 16 n),
                 byte_of_int (drop_bit 8 n), byte_of_int n]"

definition get16 :: "byte \<Rightarrow> byte \<Rightarrow> uint16" where
  "get16 d0 d1 = push_bit 8 (ucast d0) OR ucast d1"

definition get32 :: "byte \<Rightarrow> byte \<Rightarrow> byte \<Rightarrow> byte \<Rightarrow> uint32" where
  "get32 d0 d1 d2 d3 =
     push_bit 24 (ucast d0) OR push_bit 16 (ucast d1) OR push_bit 8 (ucast d2) OR ucast d3"

definition get64 :: "byte \<Rightarrow> byte \<Rightarrow> byte \<Rightarrow> byte \<Rightarrow> byte \<Rightarrow> byte \<Rightarrow> byte \<Rightarrow> byte \<Rightarrow> uint64" where
  "get64 d0 d1 d2 d3 d4 d5 d6 d7 =
     push_bit 56 (ucast d0) OR push_bit 48 (ucast d1) OR push_bit 40 (ucast d2) OR
     push_bit 32 (ucast d3) OR push_bit 24 (ucast d4) OR push_bit 16 (ucast d5) OR
     push_bit 8 (ucast d6) OR ucast d7"

definition getInt16 :: "arch \<Rightarrow> byte \<Rightarrow> byte \<Rightarrow> int" where
  "getInt16 a d0 d1 = shl a (uint d0) 8 OR uint d1"

definition getInt32 :: "arch \<Rightarrow> byte \<Rightarrow> byte \<Rightarrow> byte \<Rightarrow> byte \<Rightarrow> int" where
  "getInt32 a d0 d1 d2 d3 =
     shl a (uint d0) 24 OR shl a (uint d1) 16 OR shl a (uint d2) 8 OR uint d3"

section \<open>The session state of TLS 1.2\<close>

record sessionState =
  vers :: uint16
  cipherSuite :: uint16
  masterSecret :: "byte list"
  certificates :: "byte list list"
  usedOldKey :: bool

record sessionState13 =
  vers13 :: uint16
  suite :: uint16
  ageAdd :: uint32
  createdAt :: uint64
  maxEarlyDataLen :: uint32
  resumptionSecret :: "byte list"
  alpnProtocol :: gostring
  SNI :: gostring

text \<open>
  The argument of \<^verbatim>\<open>equal\<close> is an \<^verbatim>\<open>interface{}\<close>: a pointer to a state of either
  shape, or a value of another type. Pointers are not nil here.
\<close>

datatype iface = PtrSessionState sessionState | PtrSessionState13 sessionState13 | OtherValue

text \<open>\<^verbatim>\<open>bytes.Equal\<close> compares the contents.\<close>

definition bytesEqual :: "byte list \<Rightarrow> byte list \<Rightarrow> bool" where
  "bytesEqual x y = (x = y)"

text \<open>The loop of \<^verbatim>\<open>equal\<close> over \<^verbatim>\<open>range s.certificates\<close>; the two lists have the
  same length when it runs, and an index out of range is a panic.\<close>

fun equalCerts :: "byte list list \<Rightarrow> byte list list \<Rightarrow> nat \<Rightarrow> nat \<Rightarrow> bool option" where
  "equalCerts cs cs1 i 0 = Some True"
| "equalCerts cs cs1 i (Suc k) =
     do {
       c \<leftarrow> index cs (int i);
       c1 \<leftarrow> index cs1 (int i);
       if \<not> bytesEqual c c1 then Some False
       else equalCerts cs cs1 (Suc i) k
     }"

definition sessionState_equal :: "sessionState \<Rightarrow> iface \<Rightarrow> bool option" where
  "sessionState_equal s i =
     (case i of
        PtrSessionState s1 \<Rightarrow>
          if vers s \<noteq> vers s1 \<or> cipherSuite s \<noteq> cipherSuite s1 \<or>
             \<not> bytesEqual (masterSecret s) (masterSecret s1)
          then Some False
          else if len (certificates s) \<noteq> len (certificates s1) then Some False
          else equalCerts (certificates s) (certificates s1) 0 (length (certificates s))
      | _ \<Rightarrow> Some False)"

text \<open>
  The layout of the encoding in the words of the specification:
  \<^verbatim>\<open>version(2) | cipherSuite(2) | len(masterSecret)(2) | masterSecret | numCerts(2) |
  {len(cert)(4) | cert}*\<close>, big-endian, each length prefix holding the low 16 (or 32) bits
  of the length. \<open>marshalCerts\<close> is the layout of the certificates. The layout is what
  \<^verbatim>\<open>marshal\<close>, defined from the source below, is compared with.
\<close>

fun marshalCerts :: "byte list list \<Rightarrow> byte list" where
  "marshalCerts [] = []"
| "marshalCerts (cert # certs) = putLen32 (len cert) @ cert @ marshalCerts certs"

definition layout12 :: "sessionState \<Rightarrow> byte list" where
  "layout12 s =
     put16 (vers s) @ put16 (cipherSuite s) @
     putLen16 (len (masterSecret s)) @ masterSecret s @
     putLen16 (len (certificates s)) @ marshalCerts (certificates s)"

text \<open>
  \<^verbatim>\<open>sessionState.marshal\<close>, as the source has it: the sum \<^verbatim>\<open>length\<close> of type
  \<^verbatim>\<open>int\<close> (here \<open>n\<close>), with the loop that adds \<^verbatim>\<open>4 + len(cert)\<close> for each certificate; the buffer
  \<^verbatim>\<open>make([]byte, length)\<close>; and the writes through the window \<^verbatim>\<open>x\<close>, with the loop over
  the certificates. The result is the buffer, or \<open>None\<close> for a panic. \<^verbatim>\<open>marshal\<close> has
  no error result.
\<close>

fun certLengths :: "arch \<Rightarrow> int \<Rightarrow> byte list list \<Rightarrow> int" where
  "certLengths a n [] = n"
| "certLengths a n (cert # certs) =
     certLengths a (addInt a n (addInt a 4 (len cert))) certs"

fun writeCerts :: "arch \<Rightarrow> cursor \<Rightarrow> byte list list \<Rightarrow> cursor option" where
  "writeCerts a x [] = Some x"
| "writeCerts a x (cert # certs) =
     do {
       x \<leftarrow> put x 0 (byte_of_int (drop_bit 24 (len cert)));
       x \<leftarrow> put x 1 (byte_of_int (drop_bit 16 (len cert)));
       x \<leftarrow> put x 2 (byte_of_int (drop_bit 8 (len cert)));
       x \<leftarrow> put x 3 (byte_of_int (len cert));
       x \<leftarrow> copyAt x 4 cert;
       x \<leftarrow> advance x (addInt a 4 (len cert));
       writeCerts a x certs
     }"

definition sessionState_marshal :: "arch \<Rightarrow> sessionState \<Rightarrow> byte list option" where
  "sessionState_marshal a s =
     (let n = addInt a (addInt a 6 (len (masterSecret s))) 2;
          n = certLengths a n (certificates s)
      in do {
        ret \<leftarrow> makeBytes n;
        let x = ([], ret);
        x \<leftarrow> put x 0 (ucast (drop_bit 8 (vers s)));
        x \<leftarrow> put x 1 (ucast (vers s));
        x \<leftarrow> put x 2 (ucast (drop_bit 8 (cipherSuite s)));
        x \<leftarrow> put x 3 (ucast (cipherSuite s));
        x \<leftarrow> put x 4 (byte_of_int (drop_bit 8 (len (masterSecret s))));
        x \<leftarrow> put x 5 (byte_of_int (len (masterSecret s)));
        x \<leftarrow> advance x 6;
        let x = copyTo x (masterSecret s);
        x \<leftarrow> advance x (len (masterSecret s));
        x \<leftarrow> put x 0 (byte_of_int (drop_bit 8 (len (certificates s))));
        x \<leftarrow> put x 1 (byte_of_int (len (certificates s)));
        x \<leftarrow> advance x 2;
        x \<leftarrow> writeCerts a x (certificates s);
        Some (fst x @ snd x)
      })"

text \<open>
  \<^verbatim>\<open>unmarshal\<close> writes the fields of its receiver as it goes: the result is the
  returned boolean and the receiver after the call, or \<open>None\<close> for a panic. \<open>certLoop\<close>
  is the loop over \<^verbatim>\<open>range s.certificates\<close> with the final \<^verbatim>\<open>return len(data) == 0\<close>:
  \<open>i\<close> is the index and \<open>k\<close> the number of iterations left.
\<close>

fun certLoop :: "arch \<Rightarrow> nat \<Rightarrow> nat \<Rightarrow> sessionState \<Rightarrow> byte list \<Rightarrow> (bool \<times> sessionState) option" where
  "certLoop a i 0 s data = Some (len data = 0, s)"
| "certLoop a i (Suc k) s data =
     (if len data < 4 then Some (False, s)
      else do {
        d0 \<leftarrow> index data 0;
        d1 \<leftarrow> index data 1;
        d2 \<leftarrow> index data 2;
        d3 \<leftarrow> index data 3;
        let certLen = getInt32 a d0 d1 d2 d3;
        data \<leftarrow> sliceFrom data 4;
        if certLen < 0 then Some (False, s)
        else if len data < certLen then Some (False, s)
        else do {
          cert \<leftarrow> sliceTo data certLen;
          certs \<leftarrow> assignIdx (certificates s) (int i) cert;
          data \<leftarrow> sliceFrom data certLen;
          certLoop a (Suc i) k (s\<lparr>certificates := certs\<rparr>) data
        }
      })"

definition sessionState_unmarshal :: "arch \<Rightarrow> sessionState \<Rightarrow> byte list \<Rightarrow> (bool \<times> sessionState) option" where
  "sessionState_unmarshal a s data =
     (if len data < 8 then Some (False, s)
      else do {
        d0 \<leftarrow> index data 0;
        d1 \<leftarrow> index data 1;
        d2 \<leftarrow> index data 2;
        d3 \<leftarrow> index data 3;
        d4 \<leftarrow> index data 4;
        d5 \<leftarrow> index data 5;
        let s = s\<lparr>vers := get16 d0 d1\<rparr>;
        let s = s\<lparr>cipherSuite := get16 d2 d3\<rparr>;
        let masterSecretLen = getInt16 a d4 d5;
        data \<leftarrow> sliceFrom data 6;
        if len data < masterSecretLen then Some (False, s)
        else do {
          ms \<leftarrow> sliceTo data masterSecretLen;
          let s = s\<lparr>masterSecret := ms\<rparr>;
          data \<leftarrow> sliceFrom data masterSecretLen;
          if len data < 2 then Some (False, s)
          else do {
            n0 \<leftarrow> index data 0;
            n1 \<leftarrow> index data 1;
            let numCerts = getInt16 a n0 n1;
            data \<leftarrow> sliceFrom data 2;
            certs \<leftarrow> makeSlices numCerts;
            let s = s\<lparr>certificates := certs\<rparr>;
            certLoop a 0 (length (certificates s)) s data
          }
        }
      })"

section \<open>The session state of TLS 1.3\<close>

definition sessionState13_equal :: "sessionState13 \<Rightarrow> iface \<Rightarrow> bool" where
  "sessionState13_equal s i =
     (case i of
        PtrSessionState13 s1 \<Rightarrow>
          vers13 s = vers13 s1 \<and> suite s = suite s1 \<and> ageAdd s = ageAdd s1 \<and>
          createdAt s = createdAt s1 \<and> maxEarlyDataLen s = maxEarlyDataLen s1 \<and>
          bytesEqual (resumptionSecret s) (resumptionSecret s1) \<and>
          alpnProtocol s = alpnProtocol s1 \<and> SNI s = SNI s1
      | _ \<Rightarrow> False)"

text \<open>
  The layout of the encoding in the words of the specification:
  \<^verbatim>\<open>version(2) | suite(2) | ageAdd(4) | createdAt(8) | maxEarlyDataLen(4) |
  len(resumptionSecret)(2) | resumptionSecret | len(alpnProtocol)(2) | alpnProtocol |
  len(serverName)(2) | serverName\<close>.
\<close>

definition layout13 :: "sessionState13 \<Rightarrow> byte list" where
  "layout13 s =
     put16 (vers13 s) @ put16 (suite s) @ put32 (ageAdd s) @ put64 (createdAt s) @
     put32 (maxEarlyDataLen s) @
     putLen16 (len (resumptionSecret s)) @ resumptionSecret s @
     putLen16 (len (alpnProtocol s)) @ alpnProtocol s @
     putLen16 (len (SNI s)) @ SNI s"

text \<open>
  \<^verbatim>\<open>sessionState13.marshal\<close>, as the source has it: the sum \<^verbatim>\<open>length\<close> (here \<open>n\<close>), the buffer
  \<^verbatim>\<open>x\<close>, the 22 bytes written by index, and the three fields written through the window
  \<^verbatim>\<open>z\<close>. The last \<^verbatim>\<open>copy\<close> is followed by no slice expression.
\<close>

definition sessionState13_marshal :: "arch \<Rightarrow> sessionState13 \<Rightarrow> byte list option" where
  "sessionState13_marshal a s =
     (let n = addInt a (addInt a (addInt a (addInt a (addInt a 22
            (len (resumptionSecret s))) 2) (len (alpnProtocol s))) 2) (len (SNI s))
      in do {
        x \<leftarrow> makeBytes n;
        let x = ([], x);
        x \<leftarrow> put x 0 (ucast (drop_bit 8 (vers13 s)));
        x \<leftarrow> put x 1 (ucast (vers13 s));
        x \<leftarrow> put x 2 (ucast (drop_bit 8 (suite s)));
        x \<leftarrow> put x 3 (ucast (suite s));
        x \<leftarrow> put x 4 (ucast (drop_bit 24 (ageAdd s)));
        x \<leftarrow> put x 5 (ucast (drop_bit 16 (ageAdd s)));
        x \<leftarrow> put x 6 (ucast (drop_bit 8 (ageAdd s)));
        x \<leftarrow> put x 7 (ucast (ageAdd s));
        x \<leftarrow> put x 8 (ucast (drop_bit 56 (createdAt s)));
        x \<leftarrow> put x 9 (ucast (drop_bit 48 (createdAt s)));
        x \<leftarrow> put x 10 (ucast (drop_bit 40 (createdAt s)));
        x \<leftarrow> put x 11 (ucast (drop_bit 32 (createdAt s)));
        x \<leftarrow> put x 12 (ucast (drop_bit 24 (createdAt s)));
        x \<leftarrow> put x 13 (ucast (drop_bit 16 (createdAt s)));
        x \<leftarrow> put x 14 (ucast (drop_bit 8 (createdAt s)));
        x \<leftarrow> put x 15 (ucast (createdAt s));
        x \<leftarrow> put x 16 (ucast (drop_bit 24 (maxEarlyDataLen s)));
        x \<leftarrow> put x 17 (ucast (drop_bit 16 (maxEarlyDataLen s)));
        x \<leftarrow> put x 18 (ucast (drop_bit 8 (maxEarlyDataLen s)));
        x \<leftarrow> put x 19 (ucast (maxEarlyDataLen s));
        x \<leftarrow> put x 20 (byte_of_int (drop_bit 8 (len (resumptionSecret s))));
        x \<leftarrow> put x 21 (byte_of_int (len (resumptionSecret s)));
        x \<leftarrow> copyAt x 22 (resumptionSecret s);
        z \<leftarrow> advance x (addInt a 22 (len (resumptionSecret s)));
        z \<leftarrow> put z 0 (byte_of_int (drop_bit 8 (len (alpnProtocol s))));
        z \<leftarrow> put z 1 (byte_of_int (len (alpnProtocol s)));
        z \<leftarrow> copyAt z 2 (alpnProtocol s);
        z \<leftarrow> advance z (addInt a 2 (len (alpnProtocol s)));
        z \<leftarrow> put z 0 (byte_of_int (drop_bit 8 (len (SNI s))));
        z \<leftarrow> put z 1 (byte_of_int (len (SNI s)));
        z \<leftarrow> copyAt z 2 (SNI s);
        Some (fst z @ snd z)
      })"

definition sessionState13_unmarshal :: "arch \<Rightarrow> sessionState13 \<Rightarrow> byte list \<Rightarrow> (bool \<times> sessionState13) option" where
  "sessionState13_unmarshal a s data =
     (if len data < 24 then Some (False, s)
      else do {
        d0 \<leftarrow> index data 0; d1 \<leftarrow> index data 1;
        d2 \<leftarrow> index data 2; d3 \<leftarrow> index data 3;
        d4 \<leftarrow> index data 4; d5 \<leftarrow> index data 5;
        d6 \<leftarrow> index data 6; d7 \<leftarrow> index data 7;
        d8 \<leftarrow> index data 8; d9 \<leftarrow> index data 9;
        d10 \<leftarrow> index data 10; d11 \<leftarrow> index data 11;
        d12 \<leftarrow> index data 12; d13 \<leftarrow> index data 13;
        d14 \<leftarrow> index data 14; d15 \<leftarrow> index data 15;
        d16 \<leftarrow> index data 16; d17 \<leftarrow> index data 17;
        d18 \<leftarrow> index data 18; d19 \<leftarrow> index data 19;
        let s = s\<lparr>vers13 := get16 d0 d1\<rparr>;
        let s = s\<lparr>suite := get16 d2 d3\<rparr>;
        let s = s\<lparr>ageAdd := get32 d4 d5 d6 d7\<rparr>;
        let s = s\<lparr>createdAt := get64 d8 d9 d10 d11 d12 d13 d14 d15\<rparr>;
        let s = s\<lparr>maxEarlyDataLen := get32 d16 d17 d18 d19\<rparr>;
        d20 \<leftarrow> index data 20; d21 \<leftarrow> index data 21;
        let l = getInt16 a d20 d21;
        if len data < 22 + l + 2 then Some (False, s)
        else do {
          rs \<leftarrow> slice data 22 (22 + l);
          let s = s\<lparr>resumptionSecret := rs\<rparr>;
          z \<leftarrow> sliceFrom data (22 + l);
          z0 \<leftarrow> index z 0; z1 \<leftarrow> index z 1;
          let l = getInt16 a z0 z1;
          if len z < 2 + l + 2 then Some (False, s)
          else do {
            alpn \<leftarrow> slice z 2 (2 + l);
            let s = s\<lparr>alpnProtocol := alpn\<rparr>;
            z \<leftarrow> sliceFrom z (2 + l);
            z0 \<leftarrow> index z 0; z1 \<leftarrow> index z 1;
            let l = getInt16 a z0 z1;
            if len z \<noteq> 2 + l then Some (False, s)
            else do {
              sni \<leftarrow> slice z 2 (2 + l);
              Some (True, s\<lparr>SNI := sni\<rparr>)
            }
          }
        }
      })"

section \<open>Sealing and opening tickets\<close>

text \<open>
  Modelled from the spec: the type \<^verbatim>\<open>ticketKey\<close>, the constant \<^verbatim>\<open>ticketKeyNameLen\<close>
  and the configuration of the connection are declared outside \<^verbatim>\<open>ticket.go\<close>. A ticket
  key has a key name, an AES key and an HMAC key (fixed-size arrays in Go, byte lists
  here, their sizes being hypotheses where they matter); the key name has 16 bytes. The
  configuration gives the flag \<^verbatim>\<open>SessionTicketsDisabled\<close>, the ordered list of keys
  \<^verbatim>\<open>ticketKeys()\<close> and the random source \<^verbatim>\<open>rand()\<close>, here the bytes that the source
  can still supply.
\<close>

record ticketKey =
  keyName :: "byte list"
  aesKey :: "byte list"
  hmacKey :: "byte list"

record config =
  SessionTicketsDisabled :: bool
  ticketKeys :: "ticketKey list"
  rand :: "byte list"

definition ticketKeyNameLen :: int where
  "ticketKeyNameLen = 16"

text \<open>
  The cryptographic primitives belong to Go's standard library. \<^verbatim>\<open>aes.BlockSize\<close> is 16
  and \<^verbatim>\<open>sha256.Size\<close> is 32. HMAC-SHA256 and the key stream that AES produces in counter
  mode are parameters of the model: \<open>hmacSha256 P key msg\<close> is the tag that
  \<^verbatim>\<open>mac.Sum\<close> appends after \<^verbatim>\<open>mac.Write(msg)\<close>, and \<open>aesKeystream P key iv i\<close> is the
  byte at position \<open>i\<close> of the key stream. \<^verbatim>\<open>aes.NewCipher\<close> returns an error unless
  the key has 16, 24 or 32 bytes; \<^verbatim>\<open>cipher.NewCTR\<close> panics unless the IV has the size
  of a block; \<^verbatim>\<open>XORKeyStream\<close> writes the XOR of the source with the key stream.
\<close>

definition aesBlockSize :: int where
  "aesBlockSize = 16"

definition sha256Size :: int where
  "sha256Size = 32"

record primitives =
  hmacSha256 :: "byte list \<Rightarrow> byte list \<Rightarrow> byte list"
  aesKeystream :: "byte list \<Rightarrow> byte list \<Rightarrow> nat \<Rightarrow> byte"

datatype error = ErrRandom | ErrCipher

definition newCipher :: "byte list \<Rightarrow> byte list option" where
  "newCipher key = (if len key = 16 \<or> len key = 24 \<or> len key = 32 then Some key else None)"

definition newCTR :: "byte list \<Rightarrow> byte list \<Rightarrow> (byte list \<times> byte list) option" where
  "newCTR block iv = (if len iv \<noteq> aesBlockSize then None else Some (block, iv))"

definition xorKeyStream :: "primitives \<Rightarrow> byte list \<times> byte list \<Rightarrow> byte list \<Rightarrow> byte list" where
  "xorKeyStream P stream src =
     map (\<lambda>(i, b). b XOR aesKeystream P (fst stream) (snd stream) i) (zip [0..<length src] src)"

text \<open>\<^verbatim>\<open>io.ReadFull(r, buf)\<close> fills the buffer or returns an error.\<close>

definition readFull :: "byte list \<Rightarrow> int \<Rightarrow> byte list option" where
  "readFull r n = (if len r < n then None else Some (take (nat n) r))"

text \<open>\<^verbatim>\<open>mac.Sum(macBytes[:0])\<close> appends the tag to an empty slice over the last bytes of
  the ticket: in place when the tag fits the capacity, into a new array otherwise.\<close>

definition sumInto :: "byte list \<Rightarrow> byte list \<Rightarrow> byte list" where
  "sumInto macBytes tag = (if length tag \<le> length macBytes then copy macBytes tag else macBytes)"

text \<open>
  \<^verbatim>\<open>subtle.ConstantTimeCompare\<close> returns 0 at once when the lengths differ; otherwise
  it accumulates the XOR of every pair of bytes with OR, and returns 1 when the
  accumulator is 0.
\<close>

definition constantTimeCompare :: "byte list \<Rightarrow> byte list \<Rightarrow> int" where
  "constantTimeCompare x y =
     (if len x \<noteq> len y then 0
      else if fold (\<lambda>(xi, yi) v. v OR (xi XOR yi)) (zip x y) (0::byte) = 0 then 1 else 0)"

definition encryptTicket :: "primitives \<Rightarrow> config \<Rightarrow> byte list \<Rightarrow> (error + byte list) option" where
  "encryptTicket P c serialized =
     (let encrypted = replicate (nat (ticketKeyNameLen + aesBlockSize + len serialized + sha256Size)) (0::byte)
      in do {
        name \<leftarrow> sliceTo encrypted ticketKeyNameLen;
        iv \<leftarrow> slice encrypted ticketKeyNameLen (ticketKeyNameLen + aesBlockSize);
        macBytes \<leftarrow> sliceFrom encrypted (len encrypted - sha256Size);
        case readFull (rand c) (len iv) of
          None \<Rightarrow> Some (Inl ErrRandom)
        | Some iv \<Rightarrow> do {
            key \<leftarrow> index (ticketKeys c) 0;
            let name = copy name (keyName key);
            case newCipher (aesKey key) of
              None \<Rightarrow> Some (Inl ErrCipher)
            | Some block \<Rightarrow> do {
                stream \<leftarrow> newCTR block iv;
                let ciphertext = xorKeyStream P stream serialized;
                let body = name @ iv @ ciphertext;
                let macBytes = sumInto macBytes (hmacSha256 P (hmacKey key) body);
                Some (Inr (body @ macBytes))
              }
          }
      })"

text \<open>The search of \<^verbatim>\<open>decryptTicket\<close> for the first key whose name is that of the
  ticket: the index of the key, or \<open>-1\<close>.\<close>

fun findKey :: "byte list \<Rightarrow> ticketKey list \<Rightarrow> int \<Rightarrow> int" where
  "findKey name [] i = -1"
| "findKey name (candidateKey # keys) i =
     (if bytesEqual name (keyName candidateKey) then i else findKey name keys (i + 1))"

text \<open>The result of \<^verbatim>\<open>decryptTicket\<close> is the pair of \<^verbatim>\<open>serialized\<close>, \<open>None\<close> for the
  nil slice, and \<^verbatim>\<open>usedOldKey\<close>.\<close>

definition decryptTicket :: "primitives \<Rightarrow> config \<Rightarrow> byte list \<Rightarrow> (byte list option \<times> bool) option" where
  "decryptTicket P c encrypted =
     (if SessionTicketsDisabled c \<or>
         len encrypted < ticketKeyNameLen + aesBlockSize + sha256Size
      then Some (None, False)
      else do {
        name \<leftarrow> sliceTo encrypted ticketKeyNameLen;
        iv \<leftarrow> slice encrypted ticketKeyNameLen (ticketKeyNameLen + aesBlockSize);
        macBytes \<leftarrow> sliceFrom encrypted (len encrypted - sha256Size);
        let keys = ticketKeys c;
        let keyIndex = findKey name keys 0;
        if keyIndex = -1 then Some (None, False)
        else do {
          key \<leftarrow> index keys keyIndex;
          body \<leftarrow> sliceTo encrypted (len encrypted - sha256Size);
          let expected = hmacSha256 P (hmacKey key) body;
          if constantTimeCompare macBytes expected \<noteq> 1 then Some (None, False)
          else case newCipher (aesKey key) of
            None \<Rightarrow> Some (None, False)
          | Some block \<Rightarrow> do {
              ciphertext \<leftarrow> slice encrypted (ticketKeyNameLen + aesBlockSize) (len encrypted - sha256Size);
              stream \<leftarrow> newCTR block iv;
              let plaintext = xorKeyStream P stream ciphertext;
              Some (Some plaintext, keyIndex > 0)
            }
        }
      })"

section \<open>Field-width limits\<close>

text \<open>
  The limits of the data model: a master secret of at most 65535 bytes, at most 65535
  certificates, each of a length that 32 bits represent; and a resumption secret, an ALPN
  protocol and a server name of at most 65535 bytes each. The length of a Go slice is an
  \<^verbatim>\<open>int\<close>, so it is at most \<open>maxInt\<close> on the platform.
\<close>

definition certLenOK :: "arch \<Rightarrow> byte list \<Rightarrow> bool" where
  "certLenOK a cert = (len cert < 4294967296 \<and> len cert \<le> maxInt a)"

definition withinLimits :: "arch \<Rightarrow> sessionState \<Rightarrow> bool" where
  "withinLimits a s =
     (length (masterSecret s) \<le> 65535 \<and> length (certificates s) \<le> 65535 \<and>
      list_all (certLenOK a) (certificates s))"

definition withinLimits13 :: "sessionState13 \<Rightarrow> bool" where
  "withinLimits13 s =
     (length (resumptionSecret s) \<le> 65535 \<and> length (alpnProtocol s) \<le> 65535 \<and>
      length (SNI s) \<le> 65535)"

text \<open>
  The sum \<^verbatim>\<open>length\<close> of \<^verbatim>\<open>marshal\<close> as an unbounded integer. \<^verbatim>\<open>marshal\<close> computes it in
  \<^verbatim>\<open>int\<close>, where it wraps around when it exceeds \<open>maxInt\<close>.
\<close>

definition encodedLength :: "sessionState \<Rightarrow> int" where
  "encodedLength s =
     2 + 2 + 2 + len (masterSecret s) + 2 +
     sum_list (map (\<lambda>cert. 4 + len cert) (certificates s))"


section \<open>Example values\<close>

text \<open>Two states within the limits, and the zero values that a fresh receiver holds.\<close>

definition exampleState :: sessionState where
  "exampleState = \<lparr>vers = 0x0303, cipherSuite = 0x1301, masterSecret = [1, 2, 3],
     certificates = [[9, 8], [7]], usedOldKey = True\<rparr>"

definition zeroState :: sessionState where
  "zeroState = \<lparr>vers = 0, cipherSuite = 0, masterSecret = [], certificates = [],
     usedOldKey = False\<rparr>"

definition exampleState13 :: sessionState13 where
  "exampleState13 = \<lparr>vers13 = 0x0304, suite = 0x1301, ageAdd = 0x01020304,
     createdAt = 0x0102030405060708, maxEarlyDataLen = 7, resumptionSecret = [1, 2, 3],
     alpnProtocol = [104, 50], SNI = [97]\<rparr>"

definition zeroState13 :: sessionState13 where
  "zeroState13 = \<lparr>vers13 = 0, suite = 0, ageAdd = 0, createdAt = 0, maxEarlyDataLen = 0,
     resumptionSecret = [], alpnProtocol = [], SNI = []\<rparr>"





text \<open>
  Values for the tickets: stand-ins for the two primitives (a tag of 32 bytes and a key
  stream), a current key, a newer key, a key whose AES key has no valid size,
  configurations over them, and three tickets that are not authentic.
\<close>

definition examplePrimitives :: primitives where
  "examplePrimitives = \<lparr>hmacSha256 = (\<lambda>k m. replicate 32 (fold (XOR) (k @ m) 0)),
     aesKeystream = (\<lambda>k iv i. of_nat i)\<rparr>"

definition currentKey :: ticketKey where
  "currentKey = \<lparr>keyName = replicate 16 1, aesKey = replicate 16 2, hmacKey = replicate 16 3\<rparr>"

definition newerKey :: ticketKey where
  "newerKey = \<lparr>keyName = replicate 16 4, aesKey = replicate 16 5, hmacKey = replicate 16 6\<rparr>"

definition badCipherKey :: ticketKey where
  "badCipherKey = \<lparr>keyName = replicate 16 7, aesKey = [], hmacKey = replicate 16 0\<rparr>"

definition sealConfig :: config where
  "sealConfig = \<lparr>SessionTicketsDisabled = False, ticketKeys = [currentKey],
     rand = replicate 16 9\<rparr>"

definition rotatedConfig :: config where
  "rotatedConfig = \<lparr>SessionTicketsDisabled = False, ticketKeys = [newerKey, currentKey],
     rand = []\<rparr>"

definition disabledConfig :: config where
  "disabledConfig = \<lparr>SessionTicketsDisabled = True, ticketKeys = [currentKey], rand = []\<rparr>"

definition badCipherConfig :: config where
  "badCipherConfig = \<lparr>SessionTicketsDisabled = False, ticketKeys = [badCipherKey], rand = []\<rparr>"

definition forgedTicket :: "byte list" where
  "forgedTicket = replicate 16 1 @ replicate 16 0 @ replicate 32 5"

definition unknownKeyTicket :: "byte list" where
  "unknownKeyTicket = replicate 64 0"

definition badCipherTicket :: "byte list" where
  "badCipherTicket = replicate 16 7 @ replicate 48 0"

section \<open>Big-endian integers: the encoders and the decoders are inverse\<close>

lemma byte_bit_high: "8 \<le> n \<Longrightarrow> \<not> bit (d::byte) n"
  using bit_imp_le_length [of d n] by auto

lemma byte_bit_lt: "bit (d::byte) m \<Longrightarrow> m < 8"
  using bit_imp_le_length [of d m] by auto

lemma get16_put16: "get16 (ucast (drop_bit 8 v)) (ucast v) = (v::uint16)"
  unfolding get16_def
  by (rule bit_word_eqI) (auto simp: bit_simps)

lemma get32_put32:
  "get32 (ucast (drop_bit 24 v)) (ucast (drop_bit 16 v)) (ucast (drop_bit 8 v)) (ucast v) = (v::uint32)"
  unfolding get32_def
proof (rule bit_word_eqI)
  fix n :: nat
  assume "n < LENGTH(32)"
  then consider "n < 8" | "8 \<le> n" "n < 16" | "16 \<le> n" "n < 24" | "24 \<le> n" "n < 32"
    by fastforce
  then show "bit (push_bit 24 (ucast (ucast (drop_bit 24 v) :: byte)) OR
                  push_bit 16 (ucast (ucast (drop_bit 16 v) :: byte)) OR
                  push_bit 8 (ucast (ucast (drop_bit 8 v) :: byte)) OR
                  (ucast (ucast v :: byte) :: uint32)) n = bit v n"
    by cases (auto simp: bit_simps)
qed

lemma get64_put64:
  "get64 (ucast (drop_bit 56 v)) (ucast (drop_bit 48 v)) (ucast (drop_bit 40 v))
         (ucast (drop_bit 32 v)) (ucast (drop_bit 24 v)) (ucast (drop_bit 16 v))
         (ucast (drop_bit 8 v)) (ucast v) = (v::uint64)"
  unfolding get64_def
proof (rule bit_word_eqI)
  fix n :: nat
  assume "n < LENGTH(64)"
  then consider "n < 8" | "8 \<le> n" "n < 16" | "16 \<le> n" "n < 24" | "24 \<le> n" "n < 32"
    | "32 \<le> n" "n < 40" | "40 \<le> n" "n < 48" | "48 \<le> n" "n < 56" | "56 \<le> n" "n < 64"
    by fastforce
  then show "bit (push_bit 56 (ucast (ucast (drop_bit 56 v) :: byte)) OR
                  push_bit 48 (ucast (ucast (drop_bit 48 v) :: byte)) OR
                  push_bit 40 (ucast (ucast (drop_bit 40 v) :: byte)) OR
                  push_bit 32 (ucast (ucast (drop_bit 32 v) :: byte)) OR
                  push_bit 24 (ucast (ucast (drop_bit 24 v) :: byte)) OR
                  push_bit 16 (ucast (ucast (drop_bit 16 v) :: byte)) OR
                  push_bit 8 (ucast (ucast (drop_bit 8 v) :: byte)) OR
                  (ucast (ucast v :: byte) :: uint64)) n = bit v n"
    by cases (auto simp: bit_simps)
qed

lemma put16_get16: "put16 (get16 d0 d1) = [d0, d1]"
  unfolding get16_def put16_def
  by (auto intro!: bit_word_eqI simp: bit_simps byte_bit_high)

lemma put32_get32: "put32 (get32 d0 d1 d2 d3) = [d0, d1, d2, d3]"
  unfolding get32_def put32_def
  by (auto intro!: bit_word_eqI simp: bit_simps byte_bit_high)

lemma put64_get64: "put64 (get64 d0 d1 d2 d3 d4 d5 d6 d7) = [d0, d1, d2, d3, d4, d5, d6, d7]"
  unfolding get64_def put64_def
  by (auto intro!: bit_word_eqI simp: bit_simps byte_bit_high)

subsection \<open>Values of type \<^verbatim>\<open>int\<close>\<close>

lemma goInt_or: "goInt a (k OR l) = goInt a k OR goInt a l"
  by (rule bit_eqI) (simp add: goInt_def bit_simps)

lemma goInt_id: "0 \<le> x \<Longrightarrow> x \<le> maxInt a \<Longrightarrow> goInt a x = x"
  unfolding goInt_def maxInt_def
  by (rule signed_take_bit_int_eq_self) auto

lemma maxInt_ge: "2147483647 \<le> maxInt a"
  by (cases a) (simp_all add: maxInt_def)

lemma goInt_small: "0 \<le> x \<Longrightarrow> x < 2147483648 \<Longrightarrow> goInt a x = x"
  using maxInt_ge [of a] by (intro goInt_id) auto

lemma uint_byte_bounds: "0 \<le> uint (d::byte)" "uint (d::byte) < 256"
  using uint_bounded [of d] by simp_all

lemma shl8: "shl a (uint (d::byte)) 8 = push_bit 8 (uint d)"
  unfolding shl_def using uint_byte_bounds [of d]
  by (intro goInt_small) (simp_all add: push_bit_eq_mult)

lemma shl16: "shl a (uint (d::byte)) 16 = push_bit 16 (uint d)"
  unfolding shl_def using uint_byte_bounds [of d]
  by (intro goInt_small) (simp_all add: push_bit_eq_mult)

lemma getInt16_uint: "getInt16 a d0 d1 = uint (get16 d0 d1)"
  unfolding getInt16_def get16_def shl8
  by (rule bit_eqI) (auto simp: bit_simps dest: byte_bit_lt)

lemma getInt32_uint: "getInt32 a d0 d1 d2 d3 = goInt a (uint (get32 d0 d1 d2 d3))"
proof -
  have "uint (get32 d0 d1 d2 d3) =
        push_bit 24 (uint d0) OR push_bit 16 (uint d1) OR push_bit 8 (uint d2) OR uint d3"
    unfolding get32_def
    by (rule bit_eqI) (auto simp: bit_simps dest: byte_bit_lt)
  moreover have "goInt a (uint d3) = uint d3"
    using uint_byte_bounds [of d3] by (intro goInt_small) simp_all
  ultimately show ?thesis
    by (simp add: getInt32_def goInt_or shl16 shl8 flip: shl_def)
qed

lemma putLen16_word: "putLen16 n = put16 (word_of_int n)"
  unfolding putLen16_def put16_def byte_of_int_def
  by (auto intro!: bit_word_eqI simp: bit_simps)

lemma putLen32_word: "putLen32 n = put32 (word_of_int n)"
  unfolding putLen32_def put32_def byte_of_int_def
  by (auto intro!: bit_word_eqI simp: bit_simps)

lemma word32_goInt: "(word_of_int (goInt a k) :: uint32) = word_of_int k"
  by (cases a; rule bit_word_eqI) (auto simp: goInt_def bit_simps)

lemma getInt16_nonneg: "0 \<le> getInt16 a d0 d1"
  by (simp add: getInt16_uint)

lemma getInt16_lt: "getInt16 a d0 d1 < 65536"
  using uint_bounded [of "get16 d0 d1"] by (simp add: getInt16_uint)

section \<open>The decoder of TLS 1.2\<close>

lemma certLoop_short:
  "length data < 4 \<Longrightarrow> certLoop a i (Suc k) s data = Some (False, s)"
  by (simp add: len_def)

lemma certLoop_Cons:
  "certLoop a i (Suc k) s (d0 # d1 # d2 # d3 # rest) =
     (let certLen = getInt32 a d0 d1 d2 d3 in
      if certLen < 0 \<or> len rest < certLen then Some (False, s)
      else if i < length (certificates s)
      then certLoop a (Suc i) k (s\<lparr>certificates := (certificates s)[i := take (nat certLen) rest]\<rparr>)
             (drop (nat certLen) rest)
      else None)"
  by (simp add: len_def index_def sliceFrom_def sliceTo_def assignIdx_def Let_def)

lemma unmarshal_short:
  "length data < 8 \<Longrightarrow> sessionState_unmarshal a s data = Some (False, s)"
  by (simp add: sessionState_unmarshal_def len_def)

lemma unmarshal_Cons:
  "sessionState_unmarshal a s (d0 # d1 # d2 # d3 # d4 # d5 # rest) =
     (let s1 = s\<lparr>vers := get16 d0 d1, cipherSuite := get16 d2 d3\<rparr>;
          l = nat (getInt16 a d4 d5)
      in if length rest < 2 then Some (False, s)
         else if length rest < l then Some (False, s1)
         else let s2 = s1\<lparr>masterSecret := take l rest\<rparr>; rest2 = drop l rest
              in if length rest2 < 2 then Some (False, s2)
                 else let n = nat (getInt16 a (rest2 ! 0) (rest2 ! 1))
                      in certLoop a 0 n (s2\<lparr>certificates := replicate n []\<rparr>) (drop 2 rest2))"
  using getInt16_nonneg [of a d4 d5]
  by (auto simp add: sessionState_unmarshal_def len_def index_def sliceFrom_def sliceTo_def
        makeSlices_def Let_def getInt16_nonneg)

lemma getInt16_putLen:
  "getInt16 a (byte_of_int (drop_bit 8 n)) (byte_of_int n) = take_bit 16 n"
proof -
  let ?w = "word_of_int n :: uint16"
  have "[byte_of_int (drop_bit 8 n), byte_of_int n] = [ucast (drop_bit 8 ?w), ucast ?w]"
    using putLen16_word [of n] by (simp add: putLen16_def put16_def)
  then show ?thesis
    by (simp add: getInt16_uint get16_put16 uint_word_of_int_eq)
qed

lemma getInt32_putLen:
  "getInt32 a (byte_of_int (drop_bit 24 n)) (byte_of_int (drop_bit 16 n))
      (byte_of_int (drop_bit 8 n)) (byte_of_int n) = goInt a (take_bit 32 n)"
proof -
  let ?w = "word_of_int n :: uint32"
  have "[byte_of_int (drop_bit 24 n), byte_of_int (drop_bit 16 n),
         byte_of_int (drop_bit 8 n), byte_of_int n] =
        [ucast (drop_bit 24 ?w), ucast (drop_bit 16 ?w), ucast (drop_bit 8 ?w), ucast ?w]"
    using putLen32_word [of n] by (simp add: putLen32_def put32_def)
  then show ?thesis
    by (simp add: getInt32_uint get32_put32 uint_word_of_int_eq)
qed


declare certLoop.simps(2) [simp del]

lemma getInt16_len: "length xs < 65536 \<Longrightarrow>
  getInt16 a (byte_of_int (drop_bit 8 (int (length xs)))) (byte_of_int (int (length xs))) = int (length xs)"
  by (simp add: getInt16_putLen take_bit_int_eq_self)

lemma getInt32_len: "certLenOK a xs \<Longrightarrow>
  getInt32 a (byte_of_int (drop_bit 24 (int (length xs)))) (byte_of_int (drop_bit 16 (int (length xs))))
      (byte_of_int (drop_bit 8 (int (length xs)))) (byte_of_int (int (length xs))) = int (length xs)"
  unfolding certLenOK_def getInt32_putLen len_def
  by (simp add: take_bit_int_eq_self goInt_id)

lemma goInt_le_maxInt: "goInt a x \<le> maxInt a"
  unfolding goInt_def maxInt_def
  using signed_take_bit_int_less_exp [of "intSize a - 1" x] by simp

lemma goInt_Int64: "0 \<le> x \<Longrightarrow> x < 4294967296 \<Longrightarrow> goInt Int64 x = x"
  by (rule goInt_id) (simp_all add: maxInt_def)

lemma goInt_Int32:
  assumes "0 \<le> x" "x < 4294967296"
  shows "goInt Int32 x = (if x < 2147483648 then x else x - 4294967296)"
proof (cases "x < 2147483648")
  case True
  then show ?thesis using assms by (simp add: goInt_small)
next
  case False
  have "goInt Int32 x = take_bit 32 (x + 2147483648) - 2147483648"
    by (simp add: goInt_def signed_take_bit_eq_take_bit_shift)
  moreover have "take_bit 32 (x + 2147483648) = x + 2147483648 - 4294967296"
  proof -
    have e: "x + 2147483648 = (x - 2147483648) + 1 * 4294967296"
      by simp
    have "(x + 2147483648) mod 4294967296 = (x - 2147483648) mod 4294967296"
      unfolding e by (rule mod_mult_self1)
    also have "\<dots> = x - 2147483648"
      using False assms by (intro mod_pos_pos_trivial) simp_all
    finally show ?thesis by (simp add: take_bit_eq_mod)
  qed
  ultimately show ?thesis using False by simp
qed

lemma goInt_nonneg_eq:
  "0 \<le> x \<Longrightarrow> x < 4294967296 \<Longrightarrow> 0 \<le> goInt a x \<Longrightarrow> goInt a x = x"
  by (cases a) (simp_all add: goInt_Int64 goInt_Int32 split: if_splits)

lemma goInt_neg_large:
  "0 \<le> x \<Longrightarrow> x < 4294967296 \<Longrightarrow> goInt a x < 0 \<Longrightarrow> 2147483648 \<le> x \<and> a = Int32"
  by (cases a) (simp_all add: goInt_Int64 goInt_Int32 split: if_splits)

lemma putLen32_getInt32: "putLen32 (getInt32 a d0 d1 d2 d3) = [d0, d1, d2, d3]"
  by (simp add: putLen32_word getInt32_uint word32_goInt put32_get32)

lemma putLen16_getInt16: "putLen16 (getInt16 a d0 d1) = [d0, d1]"
  by (simp add: putLen16_word getInt16_uint put16_get16)

lemma uint_get32_bounds: "0 \<le> uint (get32 d0 d1 d2 d3)" "uint (get32 d0 d1 d2 d3) < 4294967296"
  using uint_bounded [of "get32 d0 d1 d2 d3"] by simp_all

lemma getInt32_nonneg_eq:
  "0 \<le> getInt32 a d0 d1 d2 d3 \<Longrightarrow> getInt32 a d0 d1 d2 d3 = uint (get32 d0 d1 d2 d3)"
  unfolding getInt32_uint by (rule goInt_nonneg_eq) (simp_all add: uint_get32_bounds)

lemma getInt32_le_uint: "getInt32 a d0 d1 d2 d3 \<le> uint (get32 d0 d1 d2 d3)"
  using getInt32_nonneg_eq [of a d0 d1 d2 d3] uint_get32_bounds(1) [of d0 d1 d2 d3]
  by linarith

lemma list4: "4 \<le> length xs \<Longrightarrow> \<exists>a b c d r. xs = a # b # c # d # r"
  by (auto simp: numeral_eq_Suc Suc_le_length_iff)

lemma certLoop_total:
  "i + k \<le> length (certificates s) \<Longrightarrow> \<exists>ok s'. certLoop a i k s data = Some (ok, s')"
proof (induction k arbitrary: i s data)
  case 0
  then show ?case by simp
next
  case (Suc k)
  show ?case
  proof (cases "length data < 4")
    case True
    then show ?thesis by (auto simp: certLoop_short)
  next
    case False
    then obtain d0 d1 d2 d3 rest where data: "data = d0 # d1 # d2 # d3 # rest"
      using list4 [of data] by auto
    show ?thesis
      unfolding data certLoop_Cons Let_def using Suc.prems
      by (auto intro!: Suc.IH)
  qed
qed

lemma certLoop_canonical:
  "certLoop a i k s data = Some (True, s') \<Longrightarrow> length done = i \<Longrightarrow>
   certificates s = done @ replicate k [] \<Longrightarrow>
   \<exists>cs. length cs = k \<and> (\<forall>c\<in>set cs. certLenOK a c) \<and> data = marshalCerts cs \<and>
        s' = s\<lparr>certificates := done @ cs\<rparr>"
proof (induction k arbitrary: i s data "done")
  case 0
  then show ?case by (simp add: len_def)
next
  case (Suc k)
  have "\<not> length data < 4"
    using Suc.prems(1) by (auto simp: certLoop_short)
  then obtain d0 d1 d2 d3 rest where data: "data = d0 # d1 # d2 # d3 # rest"
    using list4 [of data] by auto
  define certLen where "certLen = getInt32 a d0 d1 d2 d3"
  define c where "c = take (nat certLen) rest"
  have nn: "0 \<le> certLen" and le: "certLen \<le> int (length rest)"
    using Suc.prems(1) unfolding data certLoop_Cons certLen_def Let_def len_def
    by (auto split: if_splits)
  have lc: "int (length c) = certLen"
    using nn le by (simp add: c_def)
  have rec: "certLoop a (Suc i) k (s\<lparr>certificates := (done @ [c]) @ replicate k []\<rparr>)
               (drop (nat certLen) rest) = Some (True, s')"
    using Suc.prems nn le unfolding data certLoop_Cons Let_def len_def
    by (simp add: certLen_def [symmetric] c_def [symmetric] list_update_append split: if_splits)
  have "length (done @ [c]) = Suc i"
    using Suc.prems(2) by simp
  from Suc.IH [OF rec this]
  obtain cs where cs: "length cs = k" "\<forall>c\<in>set cs. certLenOK a c"
      "drop (nat certLen) rest = marshalCerts cs"
      "s' = s\<lparr>certificates := (done @ [c]) @ cs\<rparr>"
    by auto
  have okc: "certLenOK a c"
    using nn getInt32_nonneg_eq [of a d0 d1 d2 d3] uint_get32_bounds(2) [of d0 d1 d2 d3]
      goInt_le_maxInt [of a "uint (get32 d0 d1 d2 d3)"]
    by (simp add: certLenOK_def len_def lc certLen_def getInt32_uint)
  have "marshalCerts (c # cs) = putLen32 certLen @ c @ marshalCerts cs"
    by (simp add: len_def lc)
  also have "\<dots> = [d0, d1, d2, d3] @ take (nat certLen) rest @ drop (nat certLen) rest"
    using cs(3) by (simp add: certLen_def putLen32_getInt32 c_def)
  also have "\<dots> = data"
    by (simp add: data)
  finally have "data = marshalCerts (c # cs)"
    by simp
  then show ?case
    using cs okc by (intro exI [of _ "c # cs"]) simp
qed

lemma certLoop_marshalCerts:
  "\<forall>c\<in>set cs. certLenOK a c \<Longrightarrow> length done = i \<Longrightarrow>
   certificates s = done @ replicate (length cs) [] \<Longrightarrow>
   certLoop a i (length cs) s (marshalCerts cs @ x) =
     Some (x = [], s\<lparr>certificates := done @ cs\<rparr>)"
proof (induction cs arbitrary: i "done" s)
  case Nil
  then show ?case by (simp add: len_def)
next
  case (Cons c cs)
  have ok: "certLenOK a c" using Cons.prems(1) by simp
  let ?s = "s\<lparr>certificates := (done @ [c]) @ replicate (length cs) []\<rparr>"
  have "certLoop a (Suc i) (length cs) ?s (marshalCerts cs @ x) =
        Some (x = [], ?s\<lparr>certificates := (done @ [c]) @ cs\<rparr>)"
    using Cons.prems by (intro Cons.IH) simp_all
  then show ?case
    using Cons.prems(2,3)
    by (simp add: putLen32_def certLoop_Cons getInt32_len [OF ok] list_update_append len_def)
qed

lemma certLoop_marshalCerts_more:
  "\<forall>c\<in>set cs. certLenOK a c \<Longrightarrow> length done = i \<Longrightarrow>
   certificates s = done @ replicate (length cs + k) [] \<Longrightarrow>
   certLoop a i (length cs + k) s (marshalCerts cs @ x) =
     certLoop a (i + length cs) k (s\<lparr>certificates := done @ cs @ replicate k []\<rparr>) x"
proof (induction cs arbitrary: i "done" s)
  case Nil
  have "s\<lparr>certificates := done @ replicate k []\<rparr> = s"
    using Nil.prems(3) by (cases s) simp
  then show ?case by simp
next
  case (Cons c cs)
  have ok: "certLenOK a c" using Cons.prems(1) by simp
  let ?s = "s\<lparr>certificates := (done @ [c]) @ replicate (length cs + k) []\<rparr>"
  have "certLoop a (Suc i) (length cs + k) ?s (marshalCerts cs @ x) =
        certLoop a (Suc i + length cs) k (?s\<lparr>certificates := (done @ [c]) @ cs @ replicate k []\<rparr>) x"
    using Cons.prems by (intro Cons.IH) simp_all
  then show ?case
    using Cons.prems(2,3)
    by (simp add: putLen32_def certLoop_Cons getInt32_len [OF ok] list_update_append len_def)
qed

lemma list6: "6 \<le> length xs \<Longrightarrow> \<exists>a b c d e f r. xs = a # b # c # d # e # f # r"
  by (auto simp: numeral_eq_Suc Suc_le_length_iff)

lemma list2: "2 \<le> length xs \<Longrightarrow> \<exists>a b r. xs = a # b # r"
  by (auto simp: numeral_eq_Suc Suc_le_length_iff)

lemma unmarshal_prefix:
  "length ms < 65536 \<Longrightarrow> n < 65536 \<Longrightarrow>
   sessionState_unmarshal a r
     (put16 v @ put16 c @ putLen16 (int (length ms)) @ ms @ putLen16 (int n) @ y) =
   certLoop a 0 n (r\<lparr>vers := v, cipherSuite := c, masterSecret := ms,
                      certificates := replicate n []\<rparr>) y"
  by (simp add: put16_def putLen16_def unmarshal_Cons get16_put16 getInt16_len
        getInt16_len [where xs = "replicate n undefined", simplified])

lemma unmarshal_total:
  "\<exists>ok s'. sessionState_unmarshal a r data = Some (ok, s')"
proof (cases "length data < 8")
  case True
  then show ?thesis by (auto simp: unmarshal_short)
next
  case False
  then obtain d0 d1 d2 d3 d4 d5 rest where data: "data = d0 # d1 # d2 # d3 # d4 # d5 # rest"
    using list6 [of data] by auto
  show ?thesis
    unfolding data unmarshal_Cons Let_def
    by (auto intro!: certLoop_total)
qed

lemma unmarshal_canonical:
  assumes "sessionState_unmarshal a r data = Some (True, s')"
  shows "data = layout12 s' \<and> withinLimits a s' \<and> usedOldKey s' = usedOldKey r"
proof -
  have "\<not> length data < 8"
    using assms by (auto simp: unmarshal_short)
  then obtain d0 d1 d2 d3 d4 d5 rest where data: "data = d0 # d1 # d2 # d3 # d4 # d5 # rest"
    using list6 [of data] by auto
  let ?l = "nat (getInt16 a d4 d5)"
  let ?ms = "take ?l rest"
  have c: "\<not> length rest < 2" "\<not> length rest < ?l" "\<not> length (drop ?l rest) < 2"
    using assms unfolding data unmarshal_Cons Let_def
    by (auto split: if_splits)
  then obtain n0 n1 rest2 where rest2: "drop ?l rest = n0 # n1 # rest2"
    using list2 [of "drop ?l rest"] by auto
  let ?n = "nat (getInt16 a n0 n1)"
  let ?s2 = "r\<lparr>vers := get16 d0 d1, cipherSuite := get16 d2 d3, masterSecret := ?ms,
                 certificates := replicate ?n []\<rparr>"
  have "sessionState_unmarshal a r data = certLoop a 0 ?n ?s2 rest2"
    unfolding data unmarshal_Cons Let_def using c by (simp add: rest2)
  then have "certLoop a 0 ?n ?s2 rest2 = Some (True, s')"
    using assms by simp
  from certLoop_canonical [OF this, of "[]"]
  obtain cs where cs: "length cs = ?n" "\<forall>c\<in>set cs. certLenOK a c" "rest2 = marshalCerts cs"
      "s' = ?s2\<lparr>certificates := cs\<rparr>"
    by auto
  have lms: "int (length ?ms) = getInt16 a d4 d5"
    using c getInt16_nonneg [of a d4 d5] by simp
  have ln: "int (length cs) = getInt16 a n0 n1"
    using cs(1) getInt16_nonneg [of a n0 n1] by simp
  have "layout12 s' =
        put16 (get16 d0 d1) @ put16 (get16 d2 d3) @ putLen16 (getInt16 a d4 d5) @ ?ms @
        putLen16 (getInt16 a n0 n1) @ marshalCerts cs"
    unfolding layout12_def cs(4) len_def using lms ln by simp
  also have "\<dots> = [d0, d1, d2, d3, d4, d5] @ (take ?l rest @ drop ?l rest)"
    by (simp add: put16_get16 putLen16_getInt16 rest2 cs(3))
  also have "\<dots> = data"
    by (simp add: data)
  finally have "data = layout12 s'" by simp
  moreover have "withinLimits a s'"
    using cs(1,2) getInt16_lt [of a d4 d5] getInt16_lt [of a n0 n1] lms ln
    by (auto simp: withinLimits_def cs(4) list_all_iff)
  moreover have "usedOldKey s' = usedOldKey r"
    by (simp add: cs(4))
  ultimately show ?thesis by simp
qed

lemma unmarshal_marshal_append:
  assumes "withinLimits a s"
  shows "sessionState_unmarshal a r (layout12 s @ x) =
         Some (x = [], s\<lparr>usedOldKey := usedOldKey r\<rparr>)"
proof -
  have "sessionState_unmarshal a r (layout12 s @ x) =
        certLoop a 0 (length (certificates s))
          (r\<lparr>vers := vers s, cipherSuite := cipherSuite s, masterSecret := masterSecret s,
              certificates := replicate (length (certificates s)) []\<rparr>)
          (marshalCerts (certificates s) @ x)"
    using assms unmarshal_prefix [of "masterSecret s" "length (certificates s)" a r "vers s" "cipherSuite s"
        "marshalCerts (certificates s) @ x"]
    by (simp add: withinLimits_def layout12_def len_def)
  also have "\<dots> = Some (x = [], r\<lparr>vers := vers s, cipherSuite := cipherSuite s,
       masterSecret := masterSecret s, certificates := certificates s\<rparr>)"
    using assms certLoop_marshalCerts [of "certificates s" a "[]" 0 _ x]
    by (simp add: withinLimits_def list_all_iff)
  finally show ?thesis by simp
qed

section \<open>The decoder of TLS 1.3\<close>

lemma index_Cons_0: "index (x # xs) 0 = Some x"
  by (simp add: index_def len_def)

lemma index_Cons_1: "index (x # xs) 1 = index xs 0"
  by (simp add: index_def len_def)

lemma index_Cons_pos: "0 < i \<Longrightarrow> index (x # xs) i = index xs (i - 1)"
  by (auto simp: index_def len_def nth_Cons' nat_diff_distrib)

lemma index_Cons_numeral: "index (x # xs) (numeral n) = index xs (numeral n - 1)"
  by (rule index_Cons_pos) simp

lemma unmarshal13_short:
  "length data < 24 \<Longrightarrow> sessionState13_unmarshal a s data = Some (False, s)"
  by (simp add: sessionState13_unmarshal_def len_def)

lemma unmarshal13_header:
  "2 \<le> length rest \<Longrightarrow> sessionState13_unmarshal a s
     (d0 # d1 # d2 # d3 # d4 # d5 # d6 # d7 # d8 # d9 # d10 # d11 # d12 # d13 # d14 # d15 #
      d16 # d17 # d18 # d19 # d20 # d21 # rest) =
   (let data = (d0 # d1 # d2 # d3 # d4 # d5 # d6 # d7 # d8 # d9 # d10 # d11 # d12 # d13 # d14 # d15 #
      d16 # d17 # d18 # d19 # d20 # d21 # rest);
        s = s\<lparr>vers13 := get16 d0 d1, suite := get16 d2 d3, ageAdd := get32 d4 d5 d6 d7,
                 createdAt := get64 d8 d9 d10 d11 d12 d13 d14 d15,
                 maxEarlyDataLen := get32 d16 d17 d18 d19\<rparr>;
        l = getInt16 a d20 d21
    in if len data < 22 + l + 2 then Some (False, s)
        else do {
          rs \<leftarrow> slice data 22 (22 + l);
          let s = s\<lparr>resumptionSecret := rs\<rparr>;
          z \<leftarrow> sliceFrom data (22 + l);
          z0 \<leftarrow> index z 0; z1 \<leftarrow> index z 1;
          let l = getInt16 a z0 z1;
          if len z < 2 + l + 2 then Some (False, s)
          else do {
            alpn \<leftarrow> slice z 2 (2 + l);
            let s = s\<lparr>alpnProtocol := alpn\<rparr>;
            z \<leftarrow> sliceFrom z (2 + l);
            z0 \<leftarrow> index z 0; z1 \<leftarrow> index z 1;
            let l = getInt16 a z0 z1;
            if len z \<noteq> 2 + l then Some (False, s)
            else do {
              sni \<leftarrow> slice z 2 (2 + l);
              Some (True, s\<lparr>SNI := sni\<rparr>)
            }
          }
        })"
  unfolding sessionState13_unmarshal_def
  by (simp add: index_Cons_0 index_Cons_1 index_Cons_numeral len_def Let_def)


lemma list22: "22 \<le> length xs \<Longrightarrow>
  \<exists>d0 d1 d2 d3 d4 d5 d6 d7 d8 d9 d10 d11 d12 d13 d14 d15 d16 d17 d18 d19 d20 d21 r.
    xs = d0 # d1 # d2 # d3 # d4 # d5 # d6 # d7 # d8 # d9 # d10 # d11 # d12 # d13 # d14 # d15 #
         d16 # d17 # d18 # d19 # d20 # d21 # r"
  by (auto simp: numeral_eq_Suc Suc_le_length_iff)

lemma sliceFrom_append: "n = int (length xs) \<Longrightarrow> sliceFrom (xs @ ys) n = Some ys"
  by (simp add: sliceFrom_def len_def)

lemma slice_append2:
  "slice (x0 # x1 # xs @ ys) 2 (2 + int (length xs)) = Some xs"
  by (simp add: slice_def len_def nat_add_distrib)

lemma sliceFrom_append2:
  "sliceFrom (x0 # x1 # xs @ ys) (2 + int (length xs)) = Some ys"
  using sliceFrom_append [of "2 + int (length xs)" "x0 # x1 # xs" ys] by simp

lemma slice_exact2:
  "int (length xs) = l \<Longrightarrow> slice (x0 # x1 # xs) 2 (2 + l) = Some xs"
  by (auto simp: slice_def len_def nat_add_distrib)

lemma slice_22:
  "slice (d0 # d1 # d2 # d3 # d4 # d5 # d6 # d7 # d8 # d9 # d10 # d11 # d12 # d13 #
     d14 # d15 # d16 # d17 # d18 # d19 # d20 # d21 # rs @ ys) 22 (22 + int (length rs)) = Some rs"
  by (simp add: slice_def len_def nat_add_distrib)

lemma sliceFrom_22:
  "sliceFrom (d0 # d1 # d2 # d3 # d4 # d5 # d6 # d7 # d8 # d9 # d10 # d11 # d12 # d13 #
     d14 # d15 # d16 # d17 # d18 # d19 # d20 # d21 # rs @ ys) (22 + int (length rs)) = Some ys"
  using sliceFrom_append [of "22 + int (length rs)" "[d0, d1, d2, d3, d4, d5, d6, d7, d8, d9, d10,
     d11, d12, d13, d14, d15, d16, d17, d18, d19, d20, d21] @ rs" ys] by simp

lemma unmarshal13_fail_rs:
  "int (length rest) < getInt16 a d20 d21 + 2 \<Longrightarrow>
   sessionState13_unmarshal a s
     (d0 # d1 # d2 # d3 # d4 # d5 # d6 # d7 # d8 # d9 # d10 # d11 # d12 # d13 # d14 # d15 #
      d16 # d17 # d18 # d19 # d20 # d21 # rest) =
   Some (False, if length rest < 2 then s
     else s\<lparr>vers13 := get16 d0 d1, suite := get16 d2 d3, ageAdd := get32 d4 d5 d6 d7,
            createdAt := get64 d8 d9 d10 d11 d12 d13 d14 d15,
            maxEarlyDataLen := get32 d16 d17 d18 d19\<rparr>)"
  by (cases "length rest < 2")
     (simp_all add: unmarshal13_short unmarshal13_header len_def Let_def)

lemma unmarshal13_fail_alpn:
  "getInt16 a d20 d21 = int (length rs) \<Longrightarrow> int (length rest2) < getInt16 a z0 z1 + 2 \<Longrightarrow>
   sessionState13_unmarshal a s
     (d0 # d1 # d2 # d3 # d4 # d5 # d6 # d7 # d8 # d9 # d10 # d11 # d12 # d13 # d14 # d15 #
      d16 # d17 # d18 # d19 # d20 # d21 # rs @ z0 # z1 # rest2) =
   Some (False, s\<lparr>vers13 := get16 d0 d1, suite := get16 d2 d3, ageAdd := get32 d4 d5 d6 d7,
            createdAt := get64 d8 d9 d10 d11 d12 d13 d14 d15,
            maxEarlyDataLen := get32 d16 d17 d18 d19, resumptionSecret := rs\<rparr>)"
  by (simp add: unmarshal13_header len_def Let_def slice_22 sliceFrom_22 index_Cons_0 index_Cons_1)

lemma unmarshal13_struct:
  "getInt16 a d20 d21 = int (length rs) \<Longrightarrow> getInt16 a z0 z1 = int (length alpn) \<Longrightarrow>
   sessionState13_unmarshal a s
     (d0 # d1 # d2 # d3 # d4 # d5 # d6 # d7 # d8 # d9 # d10 # d11 # d12 # d13 # d14 # d15 #
      d16 # d17 # d18 # d19 # d20 # d21 # rs @ z0 # z1 # alpn @ y0 # y1 # rest3) =
   (let s3 = s\<lparr>vers13 := get16 d0 d1, suite := get16 d2 d3, ageAdd := get32 d4 d5 d6 d7,
            createdAt := get64 d8 d9 d10 d11 d12 d13 d14 d15,
            maxEarlyDataLen := get32 d16 d17 d18 d19, resumptionSecret := rs,
            alpnProtocol := alpn\<rparr>
    in if int (length rest3) \<noteq> getInt16 a y0 y1 then Some (False, s3)
       else Some (True, s3\<lparr>SNI := rest3\<rparr>))"
  by (simp add: unmarshal13_header len_def Let_def slice_22 sliceFrom_22 index_Cons_0 index_Cons_1
        slice_append2 sliceFrom_append2 slice_exact2)


lemma getInt16_eq_length: "l \<le> length xs \<Longrightarrow> l = nat (getInt16 a d0 d1) \<Longrightarrow>
  getInt16 a d0 d1 = int (length (take l xs))"
  using getInt16_nonneg [of a d0 d1] by simp

lemma unmarshal13_total:
  "\<exists>ok s'. sessionState13_unmarshal a s data = Some (ok, s')"
proof (cases "length data < 24")
  case True
  then show ?thesis by (auto simp: unmarshal13_short)
next
  case False
  then obtain d0 d1 d2 d3 d4 d5 d6 d7 d8 d9 d10 d11 d12 d13 d14 d15 d16 d17 d18 d19 d20 d21 rest
    where data: "data = d0 # d1 # d2 # d3 # d4 # d5 # d6 # d7 # d8 # d9 # d10 # d11 # d12 # d13 #
      d14 # d15 # d16 # d17 # d18 # d19 # d20 # d21 # rest"
    using list22 [of data] by auto
  let ?l = "nat (getInt16 a d20 d21)"
  show ?thesis
  proof (cases "int (length rest) < getInt16 a d20 d21 + 2")
    case True
    then show ?thesis unfolding data by (simp only: unmarshal13_fail_rs) blast
  next
    case r3: False
    then have "2 \<le> length (drop ?l rest)"
      using getInt16_nonneg [of a d20 d21] unfolding length_drop by linarith
    then obtain z0 z1 rest2 where rest2: "drop ?l rest = z0 # z1 # rest2"
      using list2 [of "drop ?l rest"] by auto
    have rest: "rest = take ?l rest @ z0 # z1 # rest2"
      using rest2 by (metis append_take_drop_id)
    have l1: "getInt16 a d20 d21 = int (length (take ?l rest))"
      using r3 by (intro getInt16_eq_length) simp_all
    let ?l2 = "nat (getInt16 a z0 z1)"
    show ?thesis
    proof (cases "int (length rest2) < getInt16 a z0 z1 + 2")
      case True
      then show ?thesis
        unfolding data using unmarshal13_fail_alpn [OF l1 True, of s] rest by (metis (lifting))
    next
      case r4: False
      then have "2 \<le> length (drop ?l2 rest2)"
        using getInt16_nonneg [of a z0 z1] unfolding length_drop by linarith
      then obtain y0 y1 rest3 where rest3: "drop ?l2 rest2 = y0 # y1 # rest3"
        using list2 [of "drop ?l2 rest2"] by auto
      have rest2': "rest2 = take ?l2 rest2 @ y0 # y1 # rest3"
        using rest3 by (metis append_take_drop_id)
      have l2: "getInt16 a z0 z1 = int (length (take ?l2 rest2))"
        using r4 by (intro getInt16_eq_length) simp_all
      have "\<exists>ok s'. sessionState13_unmarshal a s
       (d0 # d1 # d2 # d3 # d4 # d5 # d6 # d7 # d8 # d9 # d10 # d11 # d12 # d13 #
        d14 # d15 # d16 # d17 # d18 # d19 # d20 # d21 #
        take ?l rest @ z0 # z1 # take ?l2 rest2 @ y0 # y1 # rest3) = Some (ok, s')"
        by (simp only: unmarshal13_struct [OF l1 l2] Let_def) auto
      then show ?thesis
        unfolding data using rest rest2' by simp
    qed
  qed
qed

lemma unmarshal13_canonical:
  assumes "sessionState13_unmarshal a s data = Some (True, s')"
  shows "data = layout13 s' \<and> withinLimits13 s'"
proof -
  have "\<not> length data < 24"
    using assms by (auto simp: unmarshal13_short)
  then obtain d0 d1 d2 d3 d4 d5 d6 d7 d8 d9 d10 d11 d12 d13 d14 d15 d16 d17 d18 d19 d20 d21 rest
    where data: "data = d0 # d1 # d2 # d3 # d4 # d5 # d6 # d7 # d8 # d9 # d10 # d11 # d12 # d13 #
      d14 # d15 # d16 # d17 # d18 # d19 # d20 # d21 # rest"
    using list22 [of data] by auto
  let ?l = "nat (getInt16 a d20 d21)"
  have r3: "\<not> int (length rest) < getInt16 a d20 d21 + 2"
    using assms unfolding data by (auto simp: unmarshal13_fail_rs)
  then have "2 \<le> length (drop ?l rest)"
    using getInt16_nonneg [of a d20 d21] unfolding length_drop by linarith
  then obtain z0 z1 rest2 where rest2: "drop ?l rest = z0 # z1 # rest2"
    using list2 [of "drop ?l rest"] by auto
  define rs where "rs = take ?l rest"
  have rest: "rest = rs @ z0 # z1 # rest2"
    unfolding rs_def using rest2 by (metis append_take_drop_id)
  have l1: "getInt16 a d20 d21 = int (length rs)"
    unfolding rs_def using r3 by (intro getInt16_eq_length) simp_all
  let ?l2 = "nat (getInt16 a z0 z1)"
  have r4: "\<not> int (length rest2) < getInt16 a z0 z1 + 2"
    using assms unfolding data rest by (auto simp: unmarshal13_fail_alpn [OF l1])
  then have "2 \<le> length (drop ?l2 rest2)"
    using getInt16_nonneg [of a z0 z1] unfolding length_drop by linarith
  then obtain y0 y1 rest3 where rest3: "drop ?l2 rest2 = y0 # y1 # rest3"
    using list2 [of "drop ?l2 rest2"] by auto
  define alpn where "alpn = take ?l2 rest2"
  have rest2': "rest2 = alpn @ y0 # y1 # rest3"
    unfolding alpn_def using rest3 by (metis append_take_drop_id)
  have l2: "getInt16 a z0 z1 = int (length alpn)"
    unfolding alpn_def using r4 by (intro getInt16_eq_length) simp_all
  have l3: "getInt16 a y0 y1 = int (length rest3)"
    and s': "s' = s\<lparr>vers13 := get16 d0 d1, suite := get16 d2 d3, ageAdd := get32 d4 d5 d6 d7,
            createdAt := get64 d8 d9 d10 d11 d12 d13 d14 d15,
            maxEarlyDataLen := get32 d16 d17 d18 d19, resumptionSecret := rs,
            alpnProtocol := alpn, SNI := rest3\<rparr>"
    using assms unfolding data rest rest2' unmarshal13_struct [OF l1 l2] Let_def
    by (auto split: if_splits)
  have "layout13 s' =
     put16 (get16 d0 d1) @ put16 (get16 d2 d3) @ put32 (get32 d4 d5 d6 d7) @
     put64 (get64 d8 d9 d10 d11 d12 d13 d14 d15) @ put32 (get32 d16 d17 d18 d19) @
     putLen16 (getInt16 a d20 d21) @ rs @ putLen16 (getInt16 a z0 z1) @ alpn @
     putLen16 (getInt16 a y0 y1) @ rest3"
    by (simp add: layout13_def s' len_def l1 l2 l3)
  also have "\<dots> = data"
    unfolding put16_get16 put32_get32 put64_get64 putLen16_getInt16 data rest rest2' by simp
  finally have "data = layout13 s'" by simp
  moreover have "withinLimits13 s'"
    using getInt16_lt [of a d20 d21] getInt16_lt [of a z0 z1] getInt16_lt [of a y0 y1] l1 l2 l3
    by (simp add: withinLimits13_def s')
  ultimately show ?thesis by simp
qed

lemma unmarshal13_marshal_append:
  assumes "withinLimits13 s"
  shows "sessionState13_unmarshal a r (layout13 s @ x) =
         Some (x = [], if x = [] then s else s\<lparr>SNI := SNI r\<rparr>)"
proof -
  have l: "length (resumptionSecret s) < 65536" "length (alpnProtocol s) < 65536"
      "length (SNI s) < 65536"
    using assms by (simp_all add: withinLimits13_def)
  have full: "r\<lparr>vers13 := vers13 s, suite := suite s, ageAdd := ageAdd s, createdAt := createdAt s,
      maxEarlyDataLen := maxEarlyDataLen s, resumptionSecret := resumptionSecret s,
      alpnProtocol := alpnProtocol s, SNI := SNI s\<rparr> = s"
    by (cases s, cases r) simp
  have part: "r\<lparr>vers13 := vers13 s, suite := suite s, ageAdd := ageAdd s, createdAt := createdAt s,
      maxEarlyDataLen := maxEarlyDataLen s, resumptionSecret := resumptionSecret s,
      alpnProtocol := alpnProtocol s\<rparr> = s\<lparr>SNI := SNI r\<rparr>"
    by (cases s, cases r) simp
  show ?thesis
    unfolding layout13_def put16_def put32_def put64_def putLen16_def len_def
    using unmarshal13_struct [OF getInt16_len [OF l(1), of a] getInt16_len [OF l(2), of a],
        where ?rest3.0 = "SNI s @ x" and s = r]
    by (simp add: getInt16_len [OF l(3)] get16_put16 get32_put32 get64_put64 full part Let_def)
qed

section \<open>Equality\<close>

lemma equalCerts_eq:
  "i + k = length cs \<Longrightarrow> length cs1 = length cs \<Longrightarrow>
   equalCerts cs cs1 i k = Some (drop i cs = drop i cs1)"
proof (induction k arbitrary: i)
  case 0
  then show ?case by simp
next
  case (Suc k)
  then have i: "i < length cs" "i < length cs1" by simp_all
  have split: "(drop i cs = drop i cs1) =
               (cs ! i # drop (Suc i) cs = cs1 ! i # drop (Suc i) cs1)"
    by (simp only: Cons_nth_drop_Suc [OF i(1)] Cons_nth_drop_Suc [OF i(2)])
  have "equalCerts cs cs1 i (Suc k) =
        (if cs ! i \<noteq> cs1 ! i then Some False else equalCerts cs cs1 (Suc i) k)"
    using i by (simp add: index_def len_def bytesEqual_def)
  also have "\<dots> = (if cs ! i \<noteq> cs1 ! i then Some False
                    else Some (drop (Suc i) cs = drop (Suc i) cs1))"
    using Suc.IH [of "Suc i"] Suc.prems by simp
  also have "\<dots> = Some (cs ! i # drop (Suc i) cs = cs1 ! i # drop (Suc i) cs1)"
    by auto
  finally have "equalCerts cs cs1 i (Suc k) =
      Some (cs ! i # drop (Suc i) cs = cs1 ! i # drop (Suc i) cs1)" .
  then show ?case
    unfolding split .
qed

lemma sessionState_equal_iff:
  "sessionState_equal s (PtrSessionState s1) =
     Some (vers s = vers s1 \<and> cipherSuite s = cipherSuite s1 \<and>
           masterSecret s = masterSecret s1 \<and> certificates s = certificates s1)"
proof (cases "length (certificates s) = length (certificates s1)")
  case True
  have "equalCerts (certificates s) (certificates s1) 0 (length (certificates s)) =
        Some (drop 0 (certificates s) = drop 0 (certificates s1))"
    by (rule equalCerts_eq) (simp_all add: True)
  then show ?thesis
    by (auto simp: sessionState_equal_def bytesEqual_def len_def True)
next
  case False
  then have "certificates s \<noteq> certificates s1" by auto
  then show ?thesis
    by (simp add: sessionState_equal_def bytesEqual_def len_def False)
qed

section \<open>Examples within the limits\<close>

lemma exampleState_withinLimits: "withinLimits a exampleState"
  by (cases a) (simp_all add: exampleState_def withinLimits_def certLenOK_def len_def maxInt_def)

lemma exampleState13_withinLimits: "withinLimits13 exampleState13"
  by (simp add: exampleState13_def withinLimits13_def)

section \<open>Truncated encodings\<close>

text \<open>An encoding cut short is never accepted: an accepted input is the encoding of
  what it decodes to, and no encoding is a proper prefix of another.\<close>

lemma unmarshal_truncated:
  assumes "withinLimits a s" and "n < length (layout12 s)"
  shows "\<exists>s'. sessionState_unmarshal a r (take n (layout12 s)) = Some (False, s')"
proof -
  let ?E = "layout12 s"
  obtain ok s' where res: "sessionState_unmarshal a r (take n ?E) = Some (ok, s')"
    using unmarshal_total by blast
  have "\<not> ok"
  proof
    assume ok
    then have "sessionState_unmarshal a r (take n ?E) = Some (True, s')"
      using res by simp
    from unmarshal_canonical [OF this]
    have c: "take n ?E = layout12 s'" "withinLimits a s'"
      by simp_all
    have "sessionState_unmarshal a r (layout12 s' @ drop n ?E) =
          Some (drop n ?E = [], s'\<lparr>usedOldKey := usedOldKey r\<rparr>)"
      by (rule unmarshal_marshal_append [OF c(2)])
    moreover have "layout12 s' @ drop n ?E = ?E @ []"
      unfolding c(1) [symmetric] by simp
    moreover have "sessionState_unmarshal a r (?E @ []) = Some (True, s\<lparr>usedOldKey := usedOldKey r\<rparr>)"
      using unmarshal_marshal_append [OF assms(1), of r "[]"] by simp
    ultimately have "drop n ?E = []" by simp
    then show False using assms(2) by simp
  qed
  then show ?thesis using res by auto
qed

lemma unmarshal13_truncated:
  assumes "withinLimits13 s" and "n < length (layout13 s)"
  shows "\<exists>s'. sessionState13_unmarshal a r (take n (layout13 s)) = Some (False, s')"
proof -
  let ?E = "layout13 s"
  obtain ok s' where res: "sessionState13_unmarshal a r (take n ?E) = Some (ok, s')"
    using unmarshal13_total by blast
  have "\<not> ok"
  proof
    assume ok
    then have "sessionState13_unmarshal a r (take n ?E) = Some (True, s')"
      using res by simp
    from unmarshal13_canonical [OF this]
    have c: "take n ?E = layout13 s'" "withinLimits13 s'"
      by simp_all
    have "sessionState13_unmarshal a r (layout13 s' @ drop n ?E) =
          Some (drop n ?E = [], if drop n ?E = [] then s' else s'\<lparr>SNI := SNI r\<rparr>)"
      by (rule unmarshal13_marshal_append [OF c(2)])
    moreover have "layout13 s' @ drop n ?E = ?E @ []"
      unfolding c(1) [symmetric] by simp
    moreover have "sessionState13_unmarshal a r (?E @ []) = Some (True, s)"
      using unmarshal13_marshal_append [OF assms(1), of a r "[]"] by simp
    ultimately have "drop n ?E = []" by simp
    then show False using assms(2) by simp
  qed
  then show ?thesis using res by auto
qed

lemma exampleState_bytes:
  "layout12 exampleState =
     [3, 3, 19, 1, 0, 3, 1, 2, 3, 0, 2, 0, 0, 0, 2, 9, 8, 0, 0, 0, 1, 7]"
  by (simp add: exampleState_def layout12_def put16_def putLen16_def putLen32_def
        len_def byte_of_int_def)

lemma exampleState13_bytes:
  "layout13 exampleState13 =
     [3, 4, 19, 1, 1, 2, 3, 4, 1, 2, 3, 4, 5, 6, 7, 8, 0, 0, 0, 7, 0, 3, 1, 2, 3,
      0, 2, 104, 50, 0, 1, 97]"
  by (simp add: exampleState13_def layout13_def put16_def put32_def put64_def
        putLen16_def len_def byte_of_int_def)

lemma unmarshal_exampleState_bytes:
  "sessionState_unmarshal a zeroState
     [3, 3, 19, 1, 0, 3, 1, 2, 3, 0, 2, 0, 0, 0, 2, 9, 8, 0, 0, 0, 1, 7] =
   Some (True, exampleState\<lparr>usedOldKey := False\<rparr>)"
  using unmarshal_marshal_append [OF exampleState_withinLimits, of a zeroState "[]"]
  by (simp add: exampleState_bytes zeroState_def)

lemma unmarshal13_exampleState13_bytes:
  "sessionState13_unmarshal a zeroState13
     [3, 4, 19, 1, 1, 2, 3, 4, 1, 2, 3, 4, 5, 6, 7, 8, 0, 0, 0, 7, 0, 3, 1, 2, 3,
      0, 2, 104, 50, 0, 1, 97] = Some (True, exampleState13)"
  using unmarshal13_marshal_append [OF exampleState13_withinLimits, of a zeroState13 "[]"]
  by (simp add: exampleState13_bytes)

section \<open>Length prefixes beyond the field width\<close>





section \<open>Declared lengths beyond the remaining input\<close>

lemma list_len4: "length xs = 4 \<Longrightarrow> \<exists>a b c d. xs = [a, b, c, d]"
  by (auto simp: numeral_eq_Suc length_Suc_conv)

lemma list_len20: "length xs = 20 \<Longrightarrow>
  \<exists>d0 d1 d2 d3 d4 d5 d6 d7 d8 d9 d10 d11 d12 d13 d14 d15 d16 d17 d18 d19.
    xs = [d0, d1, d2, d3, d4, d5, d6, d7, d8, d9, d10, d11, d12, d13, d14, d15, d16, d17, d18, d19]"
  by (auto simp: numeral_eq_Suc length_Suc_conv)

lemma unmarshal_masterSecret_prefix:
  assumes "length hdr = 4" and "int (length rest) < uint (get16 l0 l1)"
  shows "\<exists>s'. sessionState_unmarshal a r (hdr @ l0 # l1 # rest) = Some (False, s')"
proof -
  obtain h0 h1 h2 h3 where hdr: "hdr = [h0, h1, h2, h3]"
    using list_len4 [OF assms(1)] by auto
  have "length rest < nat (getInt16 a l0 l1)"
    using assms(2) unfolding getInt16_uint by linarith
  then show ?thesis
    unfolding hdr by (simp add: unmarshal_Cons Let_def)
qed

lemma unmarshal_cert_prefix:
  assumes "length hdr = 4" and "length ms < 65536" and "n < 65536" and "length cs < n"
    and "list_all (certLenOK a) cs" and "int (length rest) < uint (get32 c0 c1 c2 c3)"
  shows "\<exists>s'. sessionState_unmarshal a r
           (hdr @ putLen16 (int (length ms)) @ ms @ putLen16 (int n) @ marshalCerts cs @
            c0 # c1 # c2 # c3 # rest) = Some (False, s')"
proof -
  obtain h0 h1 h2 h3 where hdr: "hdr = [h0, h1, h2, h3]"
    using list_len4 [OF assms(1)] by auto
  then have hdr': "hdr = put16 (get16 h0 h1) @ put16 (get16 h2 h3)"
    by (simp add: put16_get16)
  obtain k where n: "n = length cs + Suc k"
    using assms(4) by (metis add_Suc_right less_iff_Suc_add)
  let ?s = "r\<lparr>vers := get16 h0 h1, cipherSuite := get16 h2 h3, masterSecret := ms,
               certificates := replicate n []\<rparr>"
  let ?s2 = "?s\<lparr>certificates := [] @ cs @ replicate (Suc k) []\<rparr>"
  have "sessionState_unmarshal a r
           (hdr @ putLen16 (int (length ms)) @ ms @ putLen16 (int n) @ marshalCerts cs @
            c0 # c1 # c2 # c3 # rest) =
        certLoop a 0 n ?s (marshalCerts cs @ c0 # c1 # c2 # c3 # rest)"
    unfolding hdr' using unmarshal_prefix [OF assms(2,3)] by simp
  also have "\<dots> = certLoop a (0 + length cs) (Suc k) ?s2 (c0 # c1 # c2 # c3 # rest)"
    unfolding n using assms(5)
    by (intro certLoop_marshalCerts_more) (simp_all add: list_all_iff)
  also have "\<dots> = Some (False, ?s2)"
    using assms(6) getInt32_nonneg_eq [of a c0 c1 c2 c3]
    by (auto simp: certLoop_Cons Let_def len_def)
  finally show ?thesis by blast
qed

lemma unmarshal13_resumptionSecret_prefix:
  assumes "length hdr = 20" and "int (length rest) < uint (get16 l0 l1)"
  shows "\<exists>s'. sessionState13_unmarshal a r (hdr @ l0 # l1 # rest) = Some (False, s')"
proof -
  obtain d0 d1 d2 d3 d4 d5 d6 d7 d8 d9 d10 d11 d12 d13 d14 d15 d16 d17 d18 d19 where
    hdr: "hdr = [d0, d1, d2, d3, d4, d5, d6, d7, d8, d9, d10, d11, d12, d13, d14, d15, d16,
      d17, d18, d19]"
    using list_len20 [OF assms(1)] by auto
  have "int (length rest) < getInt16 a l0 l1 + 2"
    using assms(2) by (simp add: getInt16_uint)
  then show ?thesis
    unfolding hdr by (simp add: unmarshal13_fail_rs)
qed

lemma unmarshal13_alpn_prefix:
  assumes "length hdr = 20" and "length rs < 65536" and "int (length rest) < uint (get16 l0 l1)"
  shows "\<exists>s'. sessionState13_unmarshal a r
           (hdr @ putLen16 (int (length rs)) @ rs @ l0 # l1 # rest) = Some (False, s')"
proof -
  obtain d0 d1 d2 d3 d4 d5 d6 d7 d8 d9 d10 d11 d12 d13 d14 d15 d16 d17 d18 d19 where
    hdr: "hdr = [d0, d1, d2, d3, d4, d5, d6, d7, d8, d9, d10, d11, d12, d13, d14, d15, d16,
      d17, d18, d19]"
    using list_len20 [OF assms(1)] by auto
  have "int (length rest) < getInt16 a l0 l1 + 2"
    using assms(3) by (simp add: getInt16_uint)
  then show ?thesis
    unfolding hdr putLen16_def
    by (simp add: unmarshal13_fail_alpn [OF getInt16_len [OF assms(2)]])
qed

lemma unmarshal13_SNI_prefix:
  assumes "length hdr = 20" and "length rs < 65536" and "length alpn < 65536"
    and "int (length rest) < uint (get16 l0 l1)"
  shows "\<exists>s'. sessionState13_unmarshal a r
           (hdr @ putLen16 (int (length rs)) @ rs @ putLen16 (int (length alpn)) @ alpn @
            l0 # l1 # rest) = Some (False, s')"
proof -
  obtain d0 d1 d2 d3 d4 d5 d6 d7 d8 d9 d10 d11 d12 d13 d14 d15 d16 d17 d18 d19 where
    hdr: "hdr = [d0, d1, d2, d3, d4, d5, d6, d7, d8, d9, d10, d11, d12, d13, d14, d15, d16,
      d17, d18, d19]"
    using list_len20 [OF assms(1)] by auto
  have "int (length rest) \<noteq> getInt16 a l0 l1"
    using assms(4) by (simp add: getInt16_uint)
  then show ?thesis
    unfolding hdr putLen16_def
    by (simp add: Let_def
          unmarshal13_struct [OF getInt16_len [OF assms(2)] getInt16_len [OF assms(3)]])
qed

lemma declared_lengths: "uint (get16 0 5) = 5" "uint (get32 255 255 255 255) = 4294967295"
  by (simp_all add: get16_def get32_def)

section \<open>Tickets\<close>

lemma fold_or_xor_zero:
  "(fold (\<lambda>(xi, yi) v. v OR (xi XOR yi)) zs (v0::byte) = 0) =
   (v0 = 0 \<and> (\<forall>(xi, yi)\<in>set zs. xi = yi))"
proof (induction zs arbitrary: v0)
  case Nil
  then show ?case by simp
next
  case (Cons z zs)
  obtain xi yi where z: "z = (xi, yi)" by (cases z)
  have "(xi XOR yi = 0) = (xi = yi)"
  proof
    assume "xi XOR yi = 0"
    then have "(xi XOR yi) XOR yi = 0 XOR yi" by (simp only:)
    then show "xi = yi" by (simp add: xor.assoc)
  next
    assume "xi = yi"
    then show "xi XOR yi = 0" by simp
  qed
  then have "(v0 OR (xi XOR yi) = 0) = (v0 = 0 \<and> xi = yi)"
    by (simp add: or_eq_0_iff)
  then show ?case
    using Cons.IH [of "v0 OR (xi XOR yi)"] by (auto simp: z)
qed

lemma constantTimeCompare_eq: "(constantTimeCompare x y = 1) = (x = y)"
proof (cases "length x = length y")
  case True
  have "(\<forall>(xi, yi)\<in>set (zip x y). xi = yi) = (x = y)"
    using True by (auto simp: list_eq_iff_zip_eq)
  then show ?thesis
    using True by (simp add: constantTimeCompare_def len_def fold_or_xor_zero)
next
  case False
  then have "x \<noteq> y" by auto
  then show ?thesis
    using False by (simp add: constantTimeCompare_def len_def)
qed

lemma length_xorKeyStream: "length (xorKeyStream P st src) = length src"
  by (simp add: xorKeyStream_def)

lemma xorKeyStream_nth:
  "i < length src \<Longrightarrow>
   xorKeyStream P st src ! i = src ! i XOR aesKeystream P (fst st) (snd st) i"
  by (simp add: xorKeyStream_def)

lemma xorKeyStream_involution: "xorKeyStream P st (xorKeyStream P st src) = src"
  by (rule nth_equalityI)
     (simp_all add: length_xorKeyStream xorKeyStream_nth xor.assoc)

lemma findKey_first:
  "i < length keys \<Longrightarrow> keyName (keys ! i) = name \<Longrightarrow>
   \<forall>j<i. keyName (keys ! j) \<noteq> name \<Longrightarrow> findKey name keys k = k + int i"
proof (induction keys arbitrary: i k)
  case Nil
  then show ?case by simp
next
  case (Cons key keys)
  show ?case
  proof (cases i)
    case 0
    then show ?thesis using Cons.prems by (simp add: bytesEqual_def)
  next
    case (Suc i')
    have "keyName key \<noteq> name"
      using Cons.prems(3) Suc by auto
    moreover have "findKey name keys (k + 1) = k + 1 + int i'"
      using Cons.prems Suc by (intro Cons.IH) auto
    ultimately show ?thesis
      using Suc by (auto simp: bytesEqual_def)
  qed
qed

lemma findKey_none:
  "\<forall>key\<in>set keys. keyName key \<noteq> name \<Longrightarrow> findKey name keys k = -1"
  by (induction keys arbitrary: k) (auto simp: bytesEqual_def)

lemma findKey_range:
  "0 \<le> k \<Longrightarrow> findKey name keys k = -1 \<or>
     (k \<le> findKey name keys k \<and> findKey name keys k < k + int (length keys))"
proof (induction keys arbitrary: k)
  case Nil
  then show ?case by simp
next
  case (Cons key keys)
  have "0 \<le> k + 1" using Cons.prems by simp
  from Cons.IH [OF this]
  have "findKey name keys (k + 1) = -1 \<or>
     (k + 1 \<le> findKey name keys (k + 1) \<and>
      findKey name keys (k + 1) < k + 1 + int (length keys))" .
  then show ?case by auto
qed

lemma sliceTo_append: "int (length xs) = n \<Longrightarrow> sliceTo (xs @ ys) n = Some xs"
  by (auto simp: sliceTo_def len_def)

lemma sliceFrom_append': "int (length xs) = n \<Longrightarrow> sliceFrom (xs @ ys) n = Some ys"
  by (auto simp: sliceFrom_def len_def)

lemma slice_append3:
  "int (length xs) = lo \<Longrightarrow> int (length xs + length ys) = hi \<Longrightarrow>
   slice (xs @ ys @ zs) lo hi = Some ys"
  by (auto simp: slice_def len_def)

lemma newCipher_Some: "newCipher key = Some block \<Longrightarrow> block = key"
  by (auto simp: newCipher_def split: if_splits)

lemma decryptTicket_struct:
  assumes "length name = 16" and "length iv = 16" and "length mac = 32"
    and "\<not> SessionTicketsDisabled c"
  shows "decryptTicket P c (name @ iv @ ct @ mac) =
     (let keys = ticketKeys c; keyIndex = findKey name keys 0 in
      if keyIndex = -1 then Some (None, False)
      else let key = keys ! nat keyIndex in
        if hmacSha256 P (hmacKey key) (name @ iv @ ct) \<noteq> mac then Some (None, False)
        else if newCipher (aesKey key) = None then Some (None, False)
        else Some (Some (xorKeyStream P (aesKey key, iv) ct), keyIndex > 0))"
proof -
  let ?e = "name @ iv @ ct @ mac"
  let ?i = "findKey name (ticketKeys c) 0"
  have l: "len ?e = 64 + int (length ct)"
    using assms by (simp add: len_def)
  have s1: "sliceTo ?e ticketKeyNameLen = Some name"
    using assms(1) by (intro sliceTo_append) (simp add: ticketKeyNameLen_def)
  have s2: "slice ?e ticketKeyNameLen (ticketKeyNameLen + aesBlockSize) = Some iv"
    using assms(1,2) by (intro slice_append3) (simp_all add: ticketKeyNameLen_def aesBlockSize_def)
  have s3: "sliceFrom ?e (len ?e - sha256Size) = Some mac"
    using sliceFrom_append' [of "name @ iv @ ct" "len ?e - sha256Size" mac] assms(1,2) l
    by (simp add: sha256Size_def)
  have s4: "sliceTo ?e (len ?e - sha256Size) = Some (name @ iv @ ct)"
    using sliceTo_append [of "name @ iv @ ct" "len ?e - sha256Size" mac] assms(1,2) l
    by (simp add: sha256Size_def)
  have s5: "slice ?e (ticketKeyNameLen + aesBlockSize) (len ?e - sha256Size) = Some ct"
    using slice_append3 [of "name @ iv" "ticketKeyNameLen + aesBlockSize" ct
        "len ?e - sha256Size" mac] assms(1,2) l
    by (simp add: sha256Size_def ticketKeyNameLen_def aesBlockSize_def)
  have long: "\<not> len ?e < ticketKeyNameLen + aesBlockSize + sha256Size"
    using l by (simp add: sha256Size_def ticketKeyNameLen_def aesBlockSize_def)
  have ctr: "\<And>block. newCTR block iv = Some (block, iv)"
    using assms(2) by (simp add: newCTR_def len_def aesBlockSize_def)
  show ?thesis
  proof (cases "?i = -1")
    case True
    then show ?thesis
      unfolding decryptTicket_def using assms(4) long
      by (simp add: s1 s2 s3 Let_def)
  next
    case False
    then have r: "0 \<le> ?i" "?i < int (length (ticketKeys c))"
      using findKey_range [of 0 name "ticketKeys c"] by auto
    then have idx: "index (ticketKeys c) ?i = Some (ticketKeys c ! nat ?i)"
      by (simp add: index_def len_def)
    show ?thesis
    proof (cases "newCipher (aesKey (ticketKeys c ! nat ?i))")
      case None
      then show ?thesis
        unfolding decryptTicket_def using assms(4) long False
        by (simp add: s1 s2 s3 s4 idx Let_def constantTimeCompare_eq)
    next
      case (Some block)
      then have "block = aesKey (ticketKeys c ! nat ?i)"
        by (rule newCipher_Some)
      then show ?thesis
        unfolding decryptTicket_def using assms(4) long False Some
        by (auto simp: s1 s2 s3 s4 s5 idx ctr Let_def constantTimeCompare_eq)
    qed
  qed
qed

lemma encryptTicket_struct:
  assumes "16 \<le> length (rand c)" and "ticketKeys c \<noteq> []"
    and "length (keyName (ticketKeys c ! 0)) = 16"
    and "newCipher (aesKey (ticketKeys c ! 0)) \<noteq> None"
    and "\<forall>k m. length (hmacSha256 P k m) = 32"
  shows "encryptTicket P c serialized =
     (let key = ticketKeys c ! 0; iv = take 16 (rand c);
          body = keyName key @ iv @ xorKeyStream P (aesKey key, iv) serialized
      in Some (Inr (body @ hmacSha256 P (hmacKey key) body)))"
proof -
  let ?n = "nat (ticketKeyNameLen + aesBlockSize + len serialized + sha256Size)"
  let ?e = "replicate ?n (0::byte)"
  let ?key = "ticketKeys c ! 0"
  have n: "?n = 16 + (16 + (length serialized + 32))"
    by (simp add: ticketKeyNameLen_def aesBlockSize_def sha256Size_def len_def)
  have e: "?e = replicate 16 0 @ replicate 16 0 @ replicate (length serialized) 0 @ replicate 32 0"
    unfolding n by (simp only: replicate_add)
  have l: "len ?e = 64 + int (length serialized)"
    unfolding n by (simp add: len_def)
  have s1: "sliceTo ?e ticketKeyNameLen = Some (replicate 16 0)"
    unfolding e by (intro sliceTo_append) (simp add: ticketKeyNameLen_def)
  have s2: "slice ?e ticketKeyNameLen (ticketKeyNameLen + aesBlockSize) = Some (replicate 16 0)"
    unfolding e by (intro slice_append3) (simp_all add: ticketKeyNameLen_def aesBlockSize_def)
  have s3: "sliceFrom ?e (len ?e - sha256Size) = Some (replicate 32 0)"
    unfolding l unfolding e
    using sliceFrom_append' [of "replicate 16 0 @ replicate 16 0 @ replicate (length serialized) 0"
        "64 + int (length serialized) - sha256Size" "replicate 32 (0::byte)"]
    by (simp add: sha256Size_def)
  have rf: "readFull (rand c) (len (replicate 16 (0::byte))) = Some (take 16 (rand c))"
    using assms(1) by (simp add: readFull_def len_def)
  have idx: "index (ticketKeys c) 0 = Some ?key"
    using assms(2) by (simp add: index_def len_def)
  have cp: "copy (replicate 16 (0::byte)) (keyName ?key) = keyName ?key"
    using assms(3) by (simp add: copy_def)
  obtain block where block: "newCipher (aesKey ?key) = Some block"
    using assms(4) by auto
  then have "block = aesKey ?key" by (rule newCipher_Some)
  then have block': "newCipher (aesKey ?key) = Some (aesKey ?key)"
    using block by simp
  have ctr: "\<And>b. newCTR b (take 16 (rand c)) = Some (b, take 16 (rand c))"
    using assms(1) by (simp add: newCTR_def len_def aesBlockSize_def)
  have si: "\<And>tag. length tag = 32 \<Longrightarrow> sumInto (replicate 32 0) tag = tag"
    by (simp add: sumInto_def copy_def)
  show ?thesis
    unfolding encryptTicket_def Let_def
    using assms(5) by (simp add: s1 s2 s3 rf idx cp block' ctr si)
qed

lemma ticket_split:
  assumes "64 \<le> length e"
  shows "e = take 16 e @ take 16 (drop 16 e) @
             take (length e - 64) (drop 32 e) @ drop (length e - 32) e"
proof -
  have "drop 32 e = take (length e - 64) (drop 32 e) @ drop (length e - 64) (drop 32 e)"
    by (rule append_take_drop_id [symmetric])
  also have "drop (length e - 64) (drop 32 e) = drop (length e - 32) e"
    using assms by simp
  finally have "drop 32 e = take (length e - 64) (drop 32 e) @ drop (length e - 32) e" .
  moreover have "drop 16 e = take 16 (drop 16 e) @ drop 32 e"
    using append_take_drop_id [of 16 "drop 16 e"] by simp
  moreover have "e = take 16 e @ drop 16 e" by simp
  ultimately show ?thesis by metis
qed

lemma decryptTicket_cases:
  "decryptTicket P c e =
     (if SessionTicketsDisabled c \<or> length e < 64 then Some (None, False)
      else let name = take 16 e; iv = take 16 (drop 16 e);
               ct = take (length e - 64) (drop 32 e);
               body = take (length e - 32) e; mac = drop (length e - 32) e;
               keyIndex = findKey name (ticketKeys c) 0
           in if keyIndex = -1 then Some (None, False)
              else let key = ticketKeys c ! nat keyIndex in
                if hmacSha256 P (hmacKey key) body \<noteq> mac then Some (None, False)
                else if newCipher (aesKey key) = None then Some (None, False)
                else Some (Some (xorKeyStream P (aesKey key, iv) ct), keyIndex > 0))"
proof (cases "SessionTicketsDisabled c \<or> length e < 64")
  case True
  then show ?thesis
    by (auto simp: decryptTicket_def len_def ticketKeyNameLen_def aesBlockSize_def sha256Size_def)
next
  case False
  then have l: "64 \<le> length e" by simp
  let ?name = "take 16 e" and ?iv = "take 16 (drop 16 e)"
  let ?ct = "take (length e - 64) (drop 32 e)" and ?mac = "drop (length e - 32) e"
  have body: "take (length e - 32) e = ?name @ ?iv @ ?ct"
  proof -
    have len: "length (?name @ ?iv @ ?ct) = length e - 32"
      using l by simp
    have "e = (?name @ ?iv @ ?ct) @ ?mac"
      using ticket_split [OF l] by (simp only: append_assoc)
    then have "?name @ ?iv @ ?ct = take (length (?name @ ?iv @ ?ct)) e"
      by (metis append_eq_conv_conj)
    then show ?thesis by (simp only: len)
  qed
  have "decryptTicket P c e = decryptTicket P c (?name @ ?iv @ ?ct @ ?mac)"
    by (rule arg_cong [OF ticket_split [OF l]])
  also have "\<dots> =
     (let keys = ticketKeys c; keyIndex = findKey ?name keys 0 in
      if keyIndex = -1 then Some (None, False)
      else let key = keys ! nat keyIndex in
        if hmacSha256 P (hmacKey key) (?name @ ?iv @ ?ct) \<noteq> ?mac then Some (None, False)
        else if newCipher (aesKey key) = None then Some (None, False)
        else Some (Some (xorKeyStream P (aesKey key, ?iv) ?ct), keyIndex > 0))"
    using l False by (intro decryptTicket_struct) simp_all
  finally show ?thesis
    using False by (simp add: Let_def body)
qed

lemma encrypt_then_decrypt:
  assumes "16 \<le> length (rand ce)"
    and "ticketKeys ce \<noteq> []" and "ticketKeys ce ! 0 = key"
    and "length (keyName key) = 16"
    and "newCipher (aesKey key) \<noteq> None"
    and "\<forall>k m. length (hmacSha256 P k m) = 32"
    and "\<not> SessionTicketsDisabled cd"
    and "i < length (ticketKeys cd)" and "ticketKeys cd ! i = key"
    and "\<forall>j<i. keyName (ticketKeys cd ! j) \<noteq> keyName key"
  shows "\<exists>t. encryptTicket P ce serialized = Some (Inr t) \<and>
             decryptTicket P cd t = Some (Some serialized, i > 0)"
proof -
  let ?iv = "take 16 (rand ce)"
  let ?ct = "xorKeyStream P (aesKey key, ?iv) serialized"
  let ?body = "keyName key @ ?iv @ ?ct"
  let ?mac = "hmacSha256 P (hmacKey key) ?body"
  let ?t = "keyName key @ ?iv @ ?ct @ ?mac"
  have enc: "encryptTicket P ce serialized = Some (Inr ?t)"
    using encryptTicket_struct [of ce P serialized] assms(1-6) by (simp add: Let_def)
  have fk: "findKey (keyName key) (ticketKeys cd) 0 = 0 + int i"
    using assms(8-10) by (intro findKey_first) simp_all
  have "decryptTicket P cd ?t = Some (Some (xorKeyStream P (aesKey key, ?iv) ?ct), i > 0)"
    using assms(1,4,5,6,7,9) fk
    by (subst decryptTicket_struct) (simp_all add: Let_def)
  then have "decryptTicket P cd ?t = Some (Some serialized, i > 0)"
    by (simp only: xorKeyStream_involution)
  then show ?thesis using enc by blast
qed

lemma examplePrimitives_hmac: "\<forall>k m. length (hmacSha256 examplePrimitives k m) = 32"
  by (simp add: examplePrimitives_def)

lemma example_seal_open:
  "(\<exists>t. encryptTicket examplePrimitives sealConfig [10, 20, 30] = Some (Inr t) \<and>
        decryptTicket examplePrimitives sealConfig t = Some (Some [10, 20, 30], False)) \<and>
   (\<exists>t. encryptTicket examplePrimitives sealConfig [10, 20, 30] = Some (Inr t) \<and>
        decryptTicket examplePrimitives rotatedConfig t = Some (Some [10, 20, 30], True))"
proof -
  have k: "length (keyName currentKey) = 16" "newCipher (aesKey currentKey) \<noteq> None"
    by (simp_all add: currentKey_def newCipher_def len_def)
  have s: "16 \<le> length (rand sealConfig)" "ticketKeys sealConfig \<noteq> []"
    "ticketKeys sealConfig ! 0 = currentKey" "\<not> SessionTicketsDisabled sealConfig"
    "0 < length (ticketKeys sealConfig)"
    "\<forall>j<0. keyName (ticketKeys sealConfig ! j) \<noteq> keyName currentKey"
    by (simp_all add: sealConfig_def)
  have r: "\<not> SessionTicketsDisabled rotatedConfig" "1 < length (ticketKeys rotatedConfig)"
    "ticketKeys rotatedConfig ! 1 = currentKey"
    "\<forall>j<1. keyName (ticketKeys rotatedConfig ! j) \<noteq> keyName currentKey"
    by (simp_all add: rotatedConfig_def newerKey_def currentKey_def)
  show ?thesis
    using encrypt_then_decrypt [OF s(1,2,3) k examplePrimitives_hmac s(4,5,3,6), of "[10, 20, 30]"]
      encrypt_then_decrypt [OF s(1,2,3) k examplePrimitives_hmac r, of "[10, 20, 30]"]
    by simp
qed

lemma forgedTicket_mac:
  "hmacSha256 examplePrimitives (hmacKey currentKey)
     (take (length forgedTicket - 32) forgedTicket) \<noteq>
   drop (length forgedTicket - 32) forgedTicket"
  by code_simp

section \<open>The encoders\<close>

text \<open>
  \<^verbatim>\<open>marshal\<close> of either shape returns the layout of the data model when the sum of the
  lengths is at most \<open>maxInt\<close>; when it is more, the sum wraps around and \<^verbatim>\<open>marshal\<close>
  panics, in \<^verbatim>\<open>make\<close>, at an index or at a slice expression.
\<close>

lemma put_eq:
  "put (b, x) i v = (if 0 \<le> i \<and> i < int (length x) then Some (b, x[nat i := v]) else None)"
  by (simp add: put_def assignIdx_def len_def)

lemma advance_eq:
  "advance (b, x) n =
     (if 0 \<le> n \<and> n \<le> int (length x) then Some (b @ take (nat n) x, drop (nat n) x) else None)"
  by (simp add: advance_def sliceFrom_def len_def)

lemma copyAt_eq:
  "copyAt (b, x) n src =
     (if 0 \<le> n \<and> n \<le> int (length x)
      then Some (b, take (nat n) x @ copy (drop (nat n) x) src) else None)"
  by (simp add: copyAt_def sliceFrom_def len_def)

lemma goInt_wrap:
  assumes "maxInt a < y" and "y < 2 * (maxInt a + 1)"
  shows "goInt a y = y - 2 * (maxInt a + 1)"
proof -
  define n where "n = intSize a - 1"
  have M: "maxInt a + 1 = 2 ^ n"
    by (simp add: maxInt_def n_def)
  have "goInt a y = take_bit (Suc n) (y + 2 ^ n) - 2 ^ n"
    by (simp add: goInt_def n_def signed_take_bit_eq_take_bit_shift)
  moreover have "take_bit (Suc n) (y + 2 ^ n) = y - 2 ^ n"
  proof -
    have e: "y + 2 ^ n = (y - 2 ^ n) + 1 * (2 * 2 ^ n)" by simp
    have "(y + 2 ^ n) mod (2 * 2 ^ n) = (y - 2 ^ n) mod (2 * 2 ^ n)"
      unfolding e by (rule mod_mult_self1)
    also have "\<dots> = y - 2 ^ n"
      using assms M by (intro mod_pos_pos_trivial) simp_all
    finally show ?thesis by (simp add: take_bit_eq_mod)
  qed
  ultimately show ?thesis using M by simp
qed

lemma copy_fits: "length src \<le> length dst \<Longrightarrow> copy dst src = src @ drop (length src) dst"
  by (simp add: copy_def)

lemma addInt_len:
  assumes "0 \<le> k" and "k \<le> 22" and "len src \<le> maxInt a"
  shows "addInt a k (len src) = (if k + len src \<le> maxInt a then k + len src
                                  else k + len src - 2 * (maxInt a + 1))"
proof (cases "k + len src \<le> maxInt a")
  case True
  then show ?thesis using assms by (simp add: addInt_def goInt_id len_def)
next
  case False
  have "k + len src < 2 * (maxInt a + 1)"
    using assms maxInt_ge [of a] by simp
  then show ?thesis using False by (simp add: addInt_def goInt_wrap)
qed

lemma copy_advance:
  assumes "length hs = k" and "k \<le> 22" and "len src \<le> maxInt a"
    and "int (length (hs @ rest)) \<le> maxInt a"
  shows "copyAt (b, hs @ rest) (int k) src \<bind> (\<lambda>w. advance w (addInt a (int k) (len src)) \<bind> f) =
         (if length src \<le> length rest then f (b @ hs @ src, drop (length src) rest) else None)"
proof (cases "length src \<le> length rest")
  case True
  then have "int k + len src \<le> maxInt a"
    using assms(1,4) by (simp add: len_def)
  then have "addInt a (int k) (len src) = int k + len src"
    using addInt_len [of "int k" src a] assms(2,3) by simp
  then show ?thesis
    using True assms(1)
    by (simp add: copyAt_eq advance_eq copy_fits len_def nat_add_distrib)
next
  case False
  have n: "addInt a (int k) (len src) < 0 \<or> int (length (hs @ rest)) < addInt a (int k) (len src)"
    using addInt_len [of "int k" src a] assms False by (auto simp: len_def)
  have "length (take k (hs @ rest) @ copy (drop k (hs @ rest)) src) = length (hs @ rest)"
    using assms(1) by (simp add: copy_def)
  then show ?thesis
    using False n assms(1)
    by (auto simp: copyAt_eq advance_eq simp del: length_append)
qed

lemma puts2:
  "put (b, x) 0 v0 \<bind> (\<lambda>w. put w 1 v1 \<bind> f) =
     (if 2 \<le> length x then f (b, [v0, v1] @ drop 2 x) else None)"
proof (cases "2 \<le> length x")
  case True
  then obtain x0 x1 r where "x = x0 # x1 # r"
    using list2 [of x] by auto
  then show ?thesis by (simp add: put_eq)
next
  case False
  then show ?thesis by (simp add: put_eq)
qed

lemma puts4:
  "put (b, x) 0 v0 \<bind> (\<lambda>w. put w 1 v1 \<bind> (\<lambda>w. put w 2 v2 \<bind> (\<lambda>w. put w 3 v3 \<bind> f))) =
     (if 4 \<le> length x then f (b, [v0, v1, v2, v3] @ drop 4 x) else None)"
proof (cases "4 \<le> length x")
  case True
  then obtain x0 x1 x2 x3 r where "x = x0 # x1 # x2 # x3 # r"
    using list4 [of x] by auto
  then show ?thesis by (simp add: put_eq)
next
  case False
  then show ?thesis by (simp add: put_eq)
qed

lemma puts6:
  "put (b, x) 0 v0 \<bind> (\<lambda>w. put w 1 v1 \<bind> (\<lambda>w. put w 2 v2 \<bind> (\<lambda>w. put w 3 v3 \<bind>
     (\<lambda>w. put w 4 v4 \<bind> (\<lambda>w. put w 5 v5 \<bind> f))))) =
     (if 6 \<le> length x then f (b, [v0, v1, v2, v3, v4, v5] @ drop 6 x) else None)"
proof (cases "6 \<le> length x")
  case True
  then obtain x0 x1 x2 x3 x4 x5 r where "x = x0 # x1 # x2 # x3 # x4 # x5 # r"
    using list6 [of x] by auto
  then show ?thesis by (simp add: put_eq)
next
  case False
  then show ?thesis by (simp add: put_eq)
qed

lemma length_copy: "length (copy dst src) = length dst"
  by (simp add: copy_def)

lemma copyTo_advance:
  "advance (copyTo (b, x) src) (len src) \<bind> f =
     (if length src \<le> length x then f (b @ src, drop (length src) x) else None)"
  by (simp add: copyTo_def advance_eq length_copy len_def copy_fits)

lemma length_putLen32: "length (putLen32 n) = 4"
  by (simp add: putLen32_def)

lemma writeCerts_eq:
  "\<forall>c\<in>set certs. len c \<le> maxInt a \<Longrightarrow> int (length x) \<le> maxInt a \<Longrightarrow>
   writeCerts a (b, x) certs =
     (if length (marshalCerts certs) \<le> length x
      then Some (b @ marshalCerts certs, drop (length (marshalCerts certs)) x) else None)"
proof (induction certs arbitrary: b x)
  case Nil
  then show ?case by simp
next
  case (Cons c cs)
  have c: "len c \<le> maxInt a" using Cons.prems(1) by simp
  let ?hs = "putLen32 (len c)"
  have step: "writeCerts a (b, x) (c # cs) =
     (if 4 \<le> length x
      then (if length c \<le> length (drop 4 x)
            then writeCerts a (b @ ?hs @ c, drop (length c) (drop 4 x)) cs else None)
      else None)"
  proof (cases "4 \<le> length x")
    case True
    have "copyAt (b, ?hs @ drop 4 x) (int 4) c \<bind>
            (\<lambda>w. advance w (addInt a (int 4) (len c)) \<bind> (\<lambda>w. writeCerts a w cs)) =
          (if length c \<le> length (drop 4 x)
           then writeCerts a (b @ ?hs @ c, drop (length c) (drop 4 x)) cs else None)"
      using True Cons.prems(2) c
      by (intro copy_advance) (simp_all add: length_putLen32)
    then show ?thesis
      using True by (simp add: puts4 putLen32_def)
  next
    case False
    then show ?thesis by (simp add: puts4)
  qed
  show ?case
  proof (cases "4 + length c \<le> length x")
    case True
    have "writeCerts a (b @ ?hs @ c, drop (length c) (drop 4 x)) cs =
       (if length (marshalCerts cs) \<le> length (drop (length c) (drop 4 x))
        then Some ((b @ ?hs @ c) @ marshalCerts cs,
                   drop (length (marshalCerts cs)) (drop (length c) (drop 4 x))) else None)"
      using Cons.prems by (intro Cons.IH) simp_all
    then show ?thesis
      unfolding step using True by (auto simp: length_putLen32 len_def ac_simps)
  next
    case False
    then show ?thesis
      unfolding step by (auto simp: length_putLen32)
  qed
qed

lemma goInt_add_left: "goInt a (goInt a x + y) = goInt a (x + y)"
  unfolding goInt_def by (metis signed_take_bit_add signed_take_bit_signed_take_bit min.idem)

lemma goInt_add_right: "goInt a (x + goInt a y) = goInt a (x + y)"
  using goInt_add_left [of a y x] by (simp add: add.commute)

lemma certLengths_eq:
  "certLengths a (goInt a m) certs = goInt a (m + int (length (marshalCerts certs)))"
proof (induction certs arbitrary: m)
  case Nil
  then show ?case by simp
next
  case (Cons c cs)
  have "addInt a (goInt a m) (addInt a 4 (len c)) = goInt a (m + (4 + len c))"
    by (simp add: addInt_def goInt_add_left goInt_add_right)
  then show ?case
    using Cons.IH [of "m + (4 + len c)"]
    by (simp add: length_putLen32 len_def add.assoc)
qed

lemma length_layout12:
  "length (layout12 s) = 8 + length (masterSecret s) + length (marshalCerts (certificates s))"
  by (simp add: layout12_def put16_def putLen16_def)

lemma length_layout12_norm:
  "length (layout12 s) = length (masterSecret s) + (length (marshalCerts (certificates s)) + 8)"
  by (simp add: length_layout12)

lemma marshal_body:
  assumes cs: "\<forall>c\<in>set (certificates s). len c \<le> maxInt a"
    and ret: "int (length ret) \<le> maxInt a"
  shows "do {
      let x = ([], ret);
      x \<leftarrow> put x 0 (ucast (drop_bit 8 (vers s)));
      x \<leftarrow> put x 1 (ucast (vers s));
      x \<leftarrow> put x 2 (ucast (drop_bit 8 (cipherSuite s)));
      x \<leftarrow> put x 3 (ucast (cipherSuite s));
      x \<leftarrow> put x 4 (byte_of_int (drop_bit 8 (len (masterSecret s))));
      x \<leftarrow> put x 5 (byte_of_int (len (masterSecret s)));
      x \<leftarrow> advance x 6;
      let x = copyTo x (masterSecret s);
      x \<leftarrow> advance x (len (masterSecret s));
      x \<leftarrow> put x 0 (byte_of_int (drop_bit 8 (len (certificates s))));
      x \<leftarrow> put x 1 (byte_of_int (len (certificates s)));
      x \<leftarrow> advance x 2;
      x \<leftarrow> writeCerts a x (certificates s);
      Some (fst x @ snd x) } =
    (if length (layout12 s) \<le> length ret
     then Some (layout12 s @ drop (length (layout12 s)) ret) else None)"
proof -
  have w: "writeCerts a (b, drop k ret) (certificates s) =
     (if length (marshalCerts (certificates s)) \<le> length (drop k ret)
      then Some (b @ marshalCerts (certificates s),
                 drop (length (marshalCerts (certificates s))) (drop k ret)) else None)" for b k
    using cs ret by (intro writeCerts_eq) simp_all
  show ?thesis
    unfolding length_layout12_norm
    by (auto simp: puts6 advance_eq copyTo_advance puts2 w Let_def
          layout12_def put16_def putLen16_def ac_simps)
qed

lemma sessionState_marshal_eq:
  assumes cs: "\<forall>c\<in>set (certificates s). len c \<le> maxInt a"
  shows "sessionState_marshal a s =
    (if len (layout12 s) \<le> maxInt a then Some (layout12 s) else None)"
proof -
  let ?T = "8 + int (length (masterSecret s)) + int (length (marshalCerts (certificates s)))"
  have T: "len (layout12 s) = ?T"
    by (simp add: len_def length_layout12)
  have "addInt a (addInt a 6 (len (masterSecret s))) 2 = goInt a (8 + len (masterSecret s))"
    by (simp add: addInt_def goInt_add_left)
  then have n: "certLengths a (addInt a (addInt a 6 (len (masterSecret s))) 2) (certificates s) =
      goInt a ?T"
    by (simp add: certLengths_eq len_def)
  show ?thesis
  proof (cases "?T \<le> maxInt a")
    case True
    then have g: "goInt a ?T = ?T"
      by (intro goInt_id) simp_all
    have r: "int (length (replicate (nat ?T) (0::byte))) \<le> maxInt a"
      using True by simp
    show ?thesis
      unfolding sessionState_marshal_def Let_def n g
      using True marshal_body [OF cs r, unfolded Let_def]
      by (simp add: makeBytes_def T length_layout12)
  next
    case False
    have le: "goInt a ?T \<le> maxInt a"
      by (rule goInt_le_maxInt)
    show ?thesis
    proof (cases "0 \<le> goInt a ?T")
      case True
      have r: "int (length (replicate (nat (goInt a ?T)) (0::byte))) \<le> maxInt a"
        using le True by simp
      show ?thesis
        unfolding sessionState_marshal_def Let_def n
        using False True le marshal_body [OF cs r, unfolded Let_def]
        by (simp add: makeBytes_def T length_layout12)
    next
      case neg: False
      then show ?thesis
        unfolding sessionState_marshal_def Let_def n
        using False by (simp add: makeBytes_def T)
    qed
  qed
qed

lemma puts22:
  "put (b, x) 0 v0 \<bind> (\<lambda>w. put w 1 v1 \<bind> (\<lambda>w. put w 2 v2 \<bind> (\<lambda>w. put w 3 v3 \<bind> (\<lambda>w. put w 4 v4 \<bind> (\<lambda>w. put w 5 v5 \<bind> (\<lambda>w. put w 6 v6 \<bind> (\<lambda>w. put w 7 v7 \<bind> (\<lambda>w. put w 8 v8 \<bind> (\<lambda>w. put w 9 v9 \<bind> (\<lambda>w. put w 10 v10 \<bind> (\<lambda>w. put w 11 v11 \<bind> (\<lambda>w. put w 12 v12 \<bind> (\<lambda>w. put w 13 v13 \<bind> (\<lambda>w. put w 14 v14 \<bind> (\<lambda>w. put w 15 v15 \<bind> (\<lambda>w. put w 16 v16 \<bind> (\<lambda>w. put w 17 v17 \<bind> (\<lambda>w. put w 18 v18 \<bind> (\<lambda>w. put w 19 v19 \<bind> (\<lambda>w. put w 20 v20 \<bind> (\<lambda>w. put w 21 v21 \<bind> f))))))))))))))))))))) =
     (if 22 \<le> length x then f (b, [v0, v1, v2, v3, v4, v5, v6, v7, v8, v9, v10, v11, v12, v13, v14, v15, v16, v17, v18, v19, v20, v21] @ drop 22 x) else None)"
proof (cases "22 \<le> length x")
  case True
  then obtain d0 d1 d2 d3 d4 d5 d6 d7 d8 d9 d10 d11 d12 d13 d14 d15 d16 d17 d18 d19 d20 d21 r where "x = d0 # d1 # d2 # d3 # d4 # d5 # d6 # d7 # d8 # d9 # d10 # d11 # d12 # d13 # d14 # d15 # d16 # d17 # d18 # d19 # d20 # d21 # r"
    using list22 [of x] by auto
  then show ?thesis by (simp add: put_eq)
next
  case False
  then show ?thesis by (simp add: put_eq)
qed

lemma field2:
  assumes "len src \<le> maxInt a" and "int (length x) \<le> maxInt a"
  shows "put (b, x) 0 v0 \<bind> (\<lambda>w. put w 1 v1 \<bind> (\<lambda>w. copyAt w 2 src \<bind>
           (\<lambda>w. advance w (addInt a 2 (len src)) \<bind> f))) =
         (if 2 + length src \<le> length x
          then f (b @ [v0, v1] @ src, drop (2 + length src) x) else None)"
proof (cases "2 \<le> length x")
  case True
  have "copyAt (b, [v0, v1] @ drop 2 x) (int 2) src \<bind>
          (\<lambda>w. advance w (addInt a (int 2) (len src)) \<bind> f) =
        (if length src \<le> length (drop 2 x)
         then f (b @ [v0, v1] @ src, drop (length src) (drop 2 x)) else None)"
    using True assms by (intro copy_advance) simp_all
  then show ?thesis
    using True by (auto simp: puts2 ac_simps)
next
  case False
  then show ?thesis by (simp add: puts2)
qed

lemma header22:
  assumes "len src \<le> maxInt a" and "int (length x) \<le> maxInt a"
  shows "put (b, x) 0 v0 \<bind> (\<lambda>w. put w 1 v1 \<bind> (\<lambda>w. put w 2 v2 \<bind> (\<lambda>w. put w 3 v3 \<bind> (\<lambda>w. put w 4 v4 \<bind> (\<lambda>w. put w 5 v5 \<bind> (\<lambda>w. put w 6 v6 \<bind> (\<lambda>w. put w 7 v7 \<bind> (\<lambda>w. put w 8 v8 \<bind> (\<lambda>w. put w 9 v9 \<bind> (\<lambda>w. put w 10 v10 \<bind> (\<lambda>w. put w 11 v11 \<bind> (\<lambda>w. put w 12 v12 \<bind> (\<lambda>w. put w 13 v13 \<bind> (\<lambda>w. put w 14 v14 \<bind> (\<lambda>w. put w 15 v15 \<bind> (\<lambda>w. put w 16 v16 \<bind> (\<lambda>w. put w 17 v17 \<bind> (\<lambda>w. put w 18 v18 \<bind> (\<lambda>w. put w 19 v19 \<bind> (\<lambda>w. put w 20 v20 \<bind> (\<lambda>w. put w 21 v21 \<bind> (\<lambda>w. copyAt w 22 src \<bind> (\<lambda>w. advance w (addInt a 22 (len src)) \<bind> f))))))))))))))))))))))) =
         (if 22 + length src \<le> length x
          then f (b @ [v0, v1, v2, v3, v4, v5, v6, v7, v8, v9, v10, v11, v12, v13, v14, v15, v16, v17, v18, v19, v20, v21] @ src, drop (22 + length src) x) else None)"
proof (cases "22 \<le> length x")
  case True
  have "copyAt (b, [v0, v1, v2, v3, v4, v5, v6, v7, v8, v9, v10, v11, v12, v13, v14, v15, v16, v17, v18, v19, v20, v21] @ drop 22 x) (int 22) src \<bind>
          (\<lambda>w. advance w (addInt a (int 22) (len src)) \<bind> f) =
        (if length src \<le> length (drop 22 x)
         then f (b @ [v0, v1, v2, v3, v4, v5, v6, v7, v8, v9, v10, v11, v12, v13, v14, v15, v16, v17, v18, v19, v20, v21] @ src, drop (length src) (drop 22 x)) else None)"
    using True assms by (intro copy_advance) simp_all
  then show ?thesis
    unfolding puts22 using True by (auto simp: ac_simps)
next
  case False
  then show ?thesis unfolding puts22 by simp
qed

lemma field2_last:
  "put (b, x) 0 v0 \<bind> (\<lambda>w. put w 1 v1 \<bind> (\<lambda>w. copyAt w 2 src \<bind>
     (\<lambda>w. Some (fst w @ snd w)))) =
     (if 2 \<le> length x then Some (b @ [v0, v1] @ copy (drop 2 x) src) else None)"
  by (simp add: puts2 copyAt_eq)

lemma goInt_wrap_le:
  assumes "maxInt a < y"
  shows "goInt a y \<le> y - 2 * (maxInt a + 1)"
proof -
  define n where "n = intSize a - 1"
  have M: "maxInt a + 1 = 2 ^ n"
    by (simp add: maxInt_def n_def)
  have g: "goInt a y = (y + 2 ^ n) mod (2 * 2 ^ n) - 2 ^ n"
    by (simp add: goInt_def n_def signed_take_bit_eq_take_bit_shift take_bit_eq_mod)
  have e: "y + 2 ^ n = (y - 2 ^ n) + 1 * (2 * 2 ^ n)" by simp
  have "(y + 2 ^ n) mod (2 * 2 ^ n) = (y - 2 ^ n) mod (2 * 2 ^ n)"
    unfolding e by (rule mod_mult_self1)
  also have "\<dots> \<le> y - 2 ^ n"
    using assms M by (intro zmod_le_nonneg_dividend) simp
  finally show ?thesis using g M by simp
qed

lemma length_layout13:
  "length (layout13 s) =
     length (resumptionSecret s) + (length (alpnProtocol s) + (length (SNI s) + 26))"
  by (simp add: layout13_def put16_def put32_def put64_def putLen16_def)

lemma marshal13_body:
  assumes rs: "len (resumptionSecret s) \<le> maxInt a"
    and al: "len (alpnProtocol s) \<le> maxInt a"
    and ret: "int (length ret) \<le> maxInt a"
  shows "do {
      let x = ([], ret);
      x \<leftarrow> put x 0 (ucast (drop_bit 8 (vers13 s)));
      x \<leftarrow> put x 1 (ucast (vers13 s));
      x \<leftarrow> put x 2 (ucast (drop_bit 8 (suite s)));
      x \<leftarrow> put x 3 (ucast (suite s));
      x \<leftarrow> put x 4 (ucast (drop_bit 24 (ageAdd s)));
      x \<leftarrow> put x 5 (ucast (drop_bit 16 (ageAdd s)));
      x \<leftarrow> put x 6 (ucast (drop_bit 8 (ageAdd s)));
      x \<leftarrow> put x 7 (ucast (ageAdd s));
      x \<leftarrow> put x 8 (ucast (drop_bit 56 (createdAt s)));
      x \<leftarrow> put x 9 (ucast (drop_bit 48 (createdAt s)));
      x \<leftarrow> put x 10 (ucast (drop_bit 40 (createdAt s)));
      x \<leftarrow> put x 11 (ucast (drop_bit 32 (createdAt s)));
      x \<leftarrow> put x 12 (ucast (drop_bit 24 (createdAt s)));
      x \<leftarrow> put x 13 (ucast (drop_bit 16 (createdAt s)));
      x \<leftarrow> put x 14 (ucast (drop_bit 8 (createdAt s)));
      x \<leftarrow> put x 15 (ucast (createdAt s));
      x \<leftarrow> put x 16 (ucast (drop_bit 24 (maxEarlyDataLen s)));
      x \<leftarrow> put x 17 (ucast (drop_bit 16 (maxEarlyDataLen s)));
      x \<leftarrow> put x 18 (ucast (drop_bit 8 (maxEarlyDataLen s)));
      x \<leftarrow> put x 19 (ucast (maxEarlyDataLen s));
      x \<leftarrow> put x 20 (byte_of_int (drop_bit 8 (len (resumptionSecret s))));
      x \<leftarrow> put x 21 (byte_of_int (len (resumptionSecret s)));
      x \<leftarrow> copyAt x 22 (resumptionSecret s);
      z \<leftarrow> advance x (addInt a 22 (len (resumptionSecret s)));
      z \<leftarrow> put z 0 (byte_of_int (drop_bit 8 (len (alpnProtocol s))));
      z \<leftarrow> put z 1 (byte_of_int (len (alpnProtocol s)));
      z \<leftarrow> copyAt z 2 (alpnProtocol s);
      z \<leftarrow> advance z (addInt a 2 (len (alpnProtocol s)));
      z \<leftarrow> put z 0 (byte_of_int (drop_bit 8 (len (SNI s))));
      z \<leftarrow> put z 1 (byte_of_int (len (SNI s)));
      z \<leftarrow> copyAt z 2 (SNI s);
      Some (fst z @ snd z) } =
    (if length (resumptionSecret s) + (length (alpnProtocol s) + 26) \<le> length ret
     then Some (put16 (vers13 s) @ put16 (suite s) @ put32 (ageAdd s) @ put64 (createdAt s) @
       put32 (maxEarlyDataLen s) @
       putLen16 (len (resumptionSecret s)) @ resumptionSecret s @
       putLen16 (len (alpnProtocol s)) @ alpnProtocol s @
       putLen16 (len (SNI s)) @
       copy (drop (length (resumptionSecret s) + (length (alpnProtocol s) + 26)) ret) (SNI s))
     else None)"
proof -
  have f: "put (b, drop k ret) 0 v0 \<bind> (\<lambda>w. put w 1 v1 \<bind> (\<lambda>w. copyAt w 2 (alpnProtocol s) \<bind>
           (\<lambda>w. advance w (addInt a 2 (len (alpnProtocol s))) \<bind> f))) =
         (if 2 + length (alpnProtocol s) \<le> length (drop k ret)
          then f (b @ [v0, v1] @ alpnProtocol s, drop (2 + length (alpnProtocol s)) (drop k ret))
          else None)" for b k v0 v1 f
    using al ret by (intro field2) simp_all
  show ?thesis
    using rs ret
    by (auto simp: Let_def header22 f field2_last
          put16_def put32_def put64_def putLen16_def ac_simps)
qed

lemma sessionState13_marshal_eq:
  assumes rs: "len (resumptionSecret s) \<le> maxInt a"
    and al: "len (alpnProtocol s) \<le> maxInt a"
    and sn: "len (SNI s) \<le> maxInt a"
  shows "sessionState13_marshal a s =
    (if len (layout13 s) \<le> maxInt a then Some (layout13 s) else None)"
proof -
  let ?T = "int (length (resumptionSecret s)) + (int (length (alpnProtocol s)) +
            (int (length (SNI s)) + 26))"
  have T: "len (layout13 s) = ?T"
    by (simp add: len_def length_layout13)
  have n: "addInt a (addInt a (addInt a (addInt a (addInt a 22
            (len (resumptionSecret s))) 2) (len (alpnProtocol s))) 2) (len (SNI s)) = goInt a ?T"
    by (simp add: addInt_def goInt_add_left goInt_add_right len_def ac_simps)
  show ?thesis
  proof (cases "?T \<le> maxInt a")
    case True
    then have g: "goInt a ?T = ?T"
      by (intro goInt_id) simp_all
    have r: "int (length (replicate (nat ?T) (0::byte))) \<le> maxInt a"
      using True by simp
    show ?thesis
      unfolding sessionState13_marshal_def Let_def n g T
      using True marshal13_body [OF rs al r, unfolded Let_def]
      by (simp add: makeBytes_def layout13_def copy_fits)
  next
    case False
    have le: "goInt a ?T \<le> ?T - 2 * (maxInt a + 1)"
      using False by (intro goInt_wrap_le) simp
    have le': "goInt a ?T \<le> maxInt a"
      by (rule goInt_le_maxInt)
    show ?thesis
    proof (cases "0 \<le> goInt a ?T")
      case True
      have r: "int (length (replicate (nat (goInt a ?T)) (0::byte))) \<le> maxInt a"
        using le' True by simp
      show ?thesis
        unfolding sessionState13_marshal_def Let_def n T
        using False True le sn marshal13_body [OF rs al r, unfolded Let_def]
        by (simp add: makeBytes_def len_def)
    next
      case neg: False
      then show ?thesis
        unfolding sessionState13_marshal_def Let_def n T
        using False by (simp add: makeBytes_def)
    qed
  qed
qed

lemma cert_le_marshalCerts: "c \<in> set cs \<Longrightarrow> length c \<le> length (marshalCerts cs)"
  by (induction cs) auto

lemma sessionState_marshal_fits:
  assumes "len (layout12 s) \<le> maxInt a"
  shows "sessionState_marshal a s = Some (layout12 s)"
proof -
  have "\<forall>c\<in>set (certificates s). len c \<le> maxInt a"
  proof
    fix c assume "c \<in> set (certificates s)"
    then have "length c \<le> length (layout12 s)"
      using cert_le_marshalCerts [of c "certificates s"] by (simp add: length_layout12)
    then show "len c \<le> maxInt a"
      using assms by (simp add: len_def)
  qed
  then show ?thesis
    using assms by (simp add: sessionState_marshal_eq)
qed

lemma sessionState13_marshal_fits:
  assumes "len (layout13 s) \<le> maxInt a"
  shows "sessionState13_marshal a s = Some (layout13 s)"
proof -
  have "len (resumptionSecret s) \<le> maxInt a" "len (alpnProtocol s) \<le> maxInt a"
    "len (SNI s) \<le> maxInt a"
    using assms by (simp_all add: len_def length_layout13)
  then show ?thesis
    using assms by (simp add: sessionState13_marshal_eq)
qed

lemma withinLimits_certs: "withinLimits a s \<Longrightarrow> \<forall>c\<in>set (certificates s). len c \<le> maxInt a"
  by (simp add: withinLimits_def list_all_iff certLenOK_def)

lemma withinLimits_marshal:
  "withinLimits a s \<Longrightarrow>
   sessionState_marshal a s = (if len (layout12 s) \<le> maxInt a then Some (layout12 s) else None)"
  by (rule sessionState_marshal_eq) (rule withinLimits_certs)

lemma withinLimits13_fits: "withinLimits13 s \<Longrightarrow> len (layout13 s) \<le> maxInt a"
  using maxInt_ge [of a] by (simp add: withinLimits13_def len_def length_layout13)

lemma withinLimits13_marshal: "withinLimits13 s \<Longrightarrow> sessionState13_marshal a s = Some (layout13 s)"
  by (rule sessionState13_marshal_fits) (rule withinLimits13_fits)







text \<open>The sum of the lengths, without wrap-around, is the length of the layout.\<close>

lemma sum_marshalCerts:
  "sum_list (map (\<lambda>cert. 4 + len cert) cs) = int (length (marshalCerts cs))"
  by (induction cs) (simp_all add: length_putLen32 len_def)

lemma encodedLength_eq: "encodedLength s = len (layout12 s)"
  unfolding encodedLength_def sum_marshalCerts by (simp add: len_def length_layout12)


text \<open>The encoders on the example values.\<close>

lemma marshal_exampleState:
  "sessionState_marshal a exampleState =
     Some [3, 3, 19, 1, 0, 3, 1, 2, 3, 0, 2, 0, 0, 0, 2, 9, 8, 0, 0, 0, 1, 7]"
  using sessionState_marshal_fits [of exampleState a] maxInt_ge [of a]
  by (simp add: exampleState_bytes len_def)

lemma marshal13_exampleState13:
  "sessionState13_marshal a exampleState13 =
     Some [3, 4, 19, 1, 1, 2, 3, 4, 1, 2, 3, 4, 5, 6, 7, 8, 0, 0, 0, 7, 0, 3, 1, 2, 3,
           0, 2, 104, 50, 0, 1, 97]"
  using sessionState13_marshal_fits [of exampleState13 a] maxInt_ge [of a]
  by (simp add: exampleState13_bytes len_def)




section \<open>The claims\<close>




text \<open>
  C6. Decode rejects truncation and extension: for a state within the limits, of either
  shape, \<^verbatim>\<open>marshal\<close> returns the encoding \<open>E\<close> that the data model lays out (for TLS 1.2
  unless \<open>E\<close> is longer than \<open>maxInt\<close>, where \<^verbatim>\<open>marshal\<close> panics and returns nothing),
  and \<^verbatim>\<open>unmarshal\<close> fails on every proper prefix of \<open>E\<close> (one or more trailing bytes
  removed) and on \<open>E\<close> followed by any extra bytes.
\<close>

theorem decode_rejects_truncation_and_extension:
  assumes "withinLimits a s" and "withinLimits13 t"
  shows "sessionState_marshal a s =
           (if encodedLength s \<le> maxInt a then Some (layout12 s) else None) \<and>
         (n < length (layout12 s) \<longrightarrow>
           (\<exists>s'. sessionState_unmarshal a r (take n (layout12 s)) = Some (False, s'))) \<and>
         (x \<noteq> [] \<longrightarrow>
           (\<exists>s'. sessionState_unmarshal a r (layout12 s @ x) = Some (False, s'))) \<and>
         sessionState13_marshal a t = Some (layout13 t) \<and>
         (m < length (layout13 t) \<longrightarrow>
           (\<exists>t'. sessionState13_unmarshal a u (take m (layout13 t)) = Some (False, t'))) \<and>
         (y \<noteq> [] \<longrightarrow>
           (\<exists>t'. sessionState13_unmarshal a u (layout13 t @ y) = Some (False, t')))"
  using unmarshal_truncated [OF assms(1), of n r] unmarshal13_truncated [OF assms(2), of m a u]
    unmarshal_marshal_append [OF assms(1), of r x] unmarshal13_marshal_append [OF assms(2), of a u y]
    withinLimits_marshal [OF assms(1)] withinLimits13_marshal [OF assms(2), of a]
  by (simp add: encodedLength_eq)

theorem decode_rejects_truncation_and_extension_witness:
  "withinLimits Int64 exampleState \<and> withinLimits13 exampleState13 \<and>
   sessionState_marshal Int64 exampleState =
     Some [3, 3, 19, 1, 0, 3, 1, 2, 3, 0, 2, 0, 0, 0, 2, 9, 8, 0, 0, 0, 1, 7] \<and>
   (\<exists>s'. sessionState_unmarshal Int64 zeroState
      [3, 3, 19, 1, 0, 3, 1, 2, 3, 0, 2, 0, 0, 0, 2, 9, 8, 0, 0, 0, 1] = Some (False, s')) \<and>
   (\<exists>s'. sessionState_unmarshal Int64 zeroState
      [3, 3, 19, 1, 0, 3, 1, 2, 3, 0, 2, 0, 0, 0, 2, 9, 8, 0, 0, 0, 1, 7, 0] = Some (False, s')) \<and>
   sessionState13_marshal Int64 exampleState13 =
     Some [3, 4, 19, 1, 1, 2, 3, 4, 1, 2, 3, 4, 5, 6, 7, 8, 0, 0, 0, 7, 0, 3, 1, 2, 3,
           0, 2, 104, 50, 0, 1, 97] \<and>
   (\<exists>t'. sessionState13_unmarshal Int64 zeroState13
      [3, 4, 19, 1, 1, 2, 3, 4, 1, 2, 3, 4, 5, 6, 7, 8, 0, 0, 0, 7, 0, 3, 1, 2, 3,
       0, 2, 104, 50, 0, 1] = Some (False, t')) \<and>
   (\<exists>t'. sessionState13_unmarshal Int64 zeroState13
      [3, 4, 19, 1, 1, 2, 3, 4, 1, 2, 3, 4, 5, 6, 7, 8, 0, 0, 0, 7, 0, 3, 1, 2, 3,
       0, 2, 104, 50, 0, 1, 97, 0] = Some (False, t'))"
proof -
  have h: "encodedLength exampleState \<le> maxInt Int64"
    by (simp add: encodedLength_eq exampleState_bytes len_def maxInt_def)
  show ?thesis
    using decode_rejects_truncation_and_extension [where a = Int64 and s = exampleState
        and t = exampleState13 and n = 21 and r = zeroState and x = "[0]" and m = 31
        and u = zeroState13 and y = "[0]",
        OF exampleState_withinLimits exampleState13_withinLimits]
      exampleState_withinLimits [of Int64] exampleState13_withinLimits h
    by (simp add: exampleState_bytes exampleState13_bytes)
qed

text \<open>
  C9. Accepted encodings are canonical: for every byte sequence on which \<^verbatim>\<open>unmarshal\<close>
  of either shape returns success, the encoding of the decoded state is the same bytes,
  and \<^verbatim>\<open>marshal\<close> of the decoded state returns them (a Go slice has at most \<open>maxInt\<close>
  bytes, so the sum of the lengths does not wrap around). So \<^verbatim>\<open>unmarshal\<close> is injective
  on accepted inputs: two accepted inputs that decode to equal states are the same bytes,
  and a state has one accepted encoding.
\<close>

theorem accepted_encodings_canonical:
  "(sessionState_unmarshal a r b = Some (True, s) \<longrightarrow>
      layout12 s = b \<and> (len b \<le> maxInt a \<longrightarrow> sessionState_marshal a s = Some b)) \<and>
   (sessionState13_unmarshal a u c = Some (True, t) \<longrightarrow>
      layout13 t = c \<and> sessionState13_marshal a t = Some c) \<and>
   (sessionState_unmarshal a r b = Some (True, s) \<and>
    sessionState_unmarshal a r' b' = Some (True, s') \<and>
    sessionState_equal s (PtrSessionState s') = Some True \<longrightarrow> b = b') \<and>
   (sessionState13_unmarshal a u c = Some (True, t) \<and>
    sessionState13_unmarshal a u' c' = Some (True, t) \<longrightarrow> c = c')"
proof (intro conjI impI)
  assume "sessionState_unmarshal a r b = Some (True, s)"
  then show "layout12 s = b"
    using unmarshal_canonical by blast
next
  assume h: "sessionState_unmarshal a r b = Some (True, s)" and l: "len b \<le> maxInt a"
  have "b = layout12 s"
    using h unmarshal_canonical by blast
  then show "sessionState_marshal a s = Some b"
    using l sessionState_marshal_fits [of s a] by simp
next
  assume "sessionState13_unmarshal a u c = Some (True, t)"
  then show "layout13 t = c"
    using unmarshal13_canonical by blast
next
  assume "sessionState13_unmarshal a u c = Some (True, t)"
  then have "c = layout13 t" "withinLimits13 t"
    using unmarshal13_canonical by blast+
  then show "sessionState13_marshal a t = Some c"
    using withinLimits13_marshal [of t a] by simp
next
  assume h: "sessionState_unmarshal a r b = Some (True, s) \<and>
    sessionState_unmarshal a r' b' = Some (True, s') \<and>
    sessionState_equal s (PtrSessionState s') = Some True"
  then have "b = layout12 s" "b' = layout12 s'"
    using unmarshal_canonical by blast+
  moreover have "layout12 s = layout12 s'"
    using h by (simp add: sessionState_equal_iff layout12_def)
  ultimately show "b = b'" by simp
next
  assume "sessionState13_unmarshal a u c = Some (True, t) \<and>
    sessionState13_unmarshal a u' c' = Some (True, t)"
  then have "c = layout13 t" "c' = layout13 t"
    using unmarshal13_canonical by blast+
  then show "c = c'" by simp
qed

theorem accepted_encodings_canonical_witness:
  "sessionState_unmarshal Int64 zeroState
     [3, 3, 19, 1, 0, 3, 1, 2, 3, 0, 2, 0, 0, 0, 2, 9, 8, 0, 0, 0, 1, 7] =
     Some (True, exampleState\<lparr>usedOldKey := False\<rparr>) \<and>
   len [3, 3, 19, 1, 0, 3, 1, 2, 3, 0, 2, 0, 0, 0, 2, 9, 8, 0, 0, 0, 1, 7 :: byte] \<le>
     maxInt Int64 \<and>
   layout12 (exampleState\<lparr>usedOldKey := False\<rparr>) =
     [3, 3, 19, 1, 0, 3, 1, 2, 3, 0, 2, 0, 0, 0, 2, 9, 8, 0, 0, 0, 1, 7] \<and>
   sessionState_marshal Int64 (exampleState\<lparr>usedOldKey := False\<rparr>) =
     Some [3, 3, 19, 1, 0, 3, 1, 2, 3, 0, 2, 0, 0, 0, 2, 9, 8, 0, 0, 0, 1, 7] \<and>
   sessionState13_unmarshal Int64 zeroState13
     [3, 4, 19, 1, 1, 2, 3, 4, 1, 2, 3, 4, 5, 6, 7, 8, 0, 0, 0, 7, 0, 3, 1, 2, 3,
      0, 2, 104, 50, 0, 1, 97] = Some (True, exampleState13) \<and>
   layout13 exampleState13 =
     [3, 4, 19, 1, 1, 2, 3, 4, 1, 2, 3, 4, 5, 6, 7, 8, 0, 0, 0, 7, 0, 3, 1, 2, 3,
      0, 2, 104, 50, 0, 1, 97] \<and>
   sessionState13_marshal Int64 exampleState13 =
     Some [3, 4, 19, 1, 1, 2, 3, 4, 1, 2, 3, 4, 5, 6, 7, 8, 0, 0, 0, 7, 0, 3, 1, 2, 3,
           0, 2, 104, 50, 0, 1, 97]"
proof -
  have l: "len [3, 3, 19, 1, 0, 3, 1, 2, 3, 0, 2, 0, 0, 0, 2, 9, 8, 0, 0, 0, 1, 7 :: byte] \<le>
     maxInt Int64"
    by (simp add: len_def maxInt_def)
  show ?thesis
    using accepted_encodings_canonical [where a = Int64 and r = zeroState
        and b = "[3, 3, 19, 1, 0, 3, 1, 2, 3, 0, 2, 0, 0, 0, 2, 9, 8, 0, 0, 0, 1, 7]"
        and s = "exampleState\<lparr>usedOldKey := False\<rparr>" and u = zeroState13
        and c = "[3, 4, 19, 1, 1, 2, 3, 4, 1, 2, 3, 4, 5, 6, 7, 8, 0, 0, 0, 7, 0, 3, 1, 2, 3,
          0, 2, 104, 50, 0, 1, 97]" and t = exampleState13]
      unmarshal_exampleState_bytes [of Int64] unmarshal13_exampleState13_bytes [of Int64] l
    by blast
qed

text \<open>
  C10. Decode failure is not atomic: on the encoding that \<^verbatim>\<open>marshal\<close> returns for a
  TLS 1.2 state, followed by one extra byte, \<^verbatim>\<open>sessionState.unmarshal\<close> returns failure
  after it has overwritten the version, the cipher suite, the master secret and the
  certificates of its receiver with the decoded values. \<^verbatim>\<open>sessionState13.unmarshal\<close>
  does the same with every field but the server name.
\<close>

theorem unmarshal_failure_overwrites_receiver:
  "sessionState_marshal a exampleState = Some (layout12 exampleState) \<and>
   sessionState_unmarshal a zeroState (layout12 exampleState @ [0]) =
     Some (False, exampleState\<lparr>usedOldKey := False\<rparr>) \<and>
   exampleState\<lparr>usedOldKey := False\<rparr> \<noteq> zeroState \<and>
   sessionState13_marshal a exampleState13 = Some (layout13 exampleState13) \<and>
   sessionState13_unmarshal a zeroState13 (layout13 exampleState13 @ [0]) =
     Some (False, exampleState13\<lparr>SNI := []\<rparr>) \<and>
   exampleState13\<lparr>SNI := []\<rparr> \<noteq> zeroState13"
proof -
  have "sessionState_marshal a exampleState = Some (layout12 exampleState)"
    using marshal_exampleState [of a] by (simp add: exampleState_bytes)
  moreover have "sessionState13_marshal a exampleState13 = Some (layout13 exampleState13)"
    using marshal13_exampleState13 [of a] by (simp add: exampleState13_bytes)
  moreover have "sessionState_unmarshal a zeroState (layout12 exampleState @ [0]) =
     Some (False, exampleState\<lparr>usedOldKey := False\<rparr>)"
    using unmarshal_marshal_append [OF exampleState_withinLimits, of a zeroState "[0]"]
    by (simp add: zeroState_def)
  moreover have "sessionState13_unmarshal a zeroState13 (layout13 exampleState13 @ [0]) =
     Some (False, exampleState13\<lparr>SNI := []\<rparr>)"
    using unmarshal13_marshal_append [OF exampleState13_withinLimits, of a zeroState13 "[0]"]
    by (simp add: zeroState13_def)
  moreover have "exampleState\<lparr>usedOldKey := False\<rparr> \<noteq> zeroState"
    by (simp add: zeroState_def exampleState_def)
  moreover have "exampleState13\<lparr>SNI := []\<rparr> \<noteq> zeroState13"
    by (simp add: zeroState13_def exampleState13_def)
  ultimately show ?thesis by blast
qed




text \<open>
  C8, as the code has it. \<^verbatim>\<open>sessionState.equal\<close> returns true exactly when the
  version, the cipher suite, the master secret and the certificates of the two states are
  equal, byte sequences compared by content; it does not compare \<open>usedOldKey\<close>.
  \<^verbatim>\<open>sessionState13.equal\<close> returns true exactly when every field is equal. Both return
  false when the argument is a value of another type.
\<close>

theorem equal_compares_encoded_fields:
  "sessionState_equal s (PtrSessionState s1) =
     Some (vers s = vers s1 \<and> cipherSuite s = cipherSuite s1 \<and>
           masterSecret s = masterSecret s1 \<and> certificates s = certificates s1) \<and>
   sessionState_equal s (PtrSessionState13 t1) = Some False \<and>
   sessionState_equal s OtherValue = Some False \<and>
   sessionState13_equal t (PtrSessionState13 t1) =
     (vers13 t = vers13 t1 \<and> suite t = suite t1 \<and> ageAdd t = ageAdd t1 \<and>
      createdAt t = createdAt t1 \<and> maxEarlyDataLen t = maxEarlyDataLen t1 \<and>
      resumptionSecret t = resumptionSecret t1 \<and> alpnProtocol t = alpnProtocol t1 \<and>
      SNI t = SNI t1) \<and>
   sessionState13_equal t (PtrSessionState13 t1) = (t = t1) \<and>
   sessionState13_equal t (PtrSessionState s1) = False \<and>
   sessionState13_equal t OtherValue = False"
proof -
  have "sessionState13_equal t (PtrSessionState13 t1) = (t = t1)"
    by (cases t, cases t1) (auto simp: sessionState13_equal_def bytesEqual_def)
  then show ?thesis
    by (simp add: sessionState_equal_iff)
       (simp add: sessionState_equal_def sessionState13_equal_def bytesEqual_def)
qed

theorem equal_compares_encoded_fields_witness:
  "sessionState_equal exampleState (PtrSessionState exampleState) = Some True \<and>
   sessionState_equal exampleState (PtrSessionState zeroState) = Some False \<and>
   sessionState_equal exampleState (PtrSessionState13 exampleState13) = Some False \<and>
   sessionState_equal exampleState OtherValue = Some False \<and>
   sessionState13_equal exampleState13 (PtrSessionState13 exampleState13) \<and>
   \<not> sessionState13_equal exampleState13 (PtrSessionState13 zeroState13) \<and>
   \<not> sessionState13_equal exampleState13 (PtrSessionState exampleState) \<and>
   \<not> sessionState13_equal exampleState13 OtherValue"
  using equal_compares_encoded_fields [where s = exampleState and ?s1.0 = exampleState
      and t = exampleState13 and ?t1.0 = exampleState13]
    equal_compares_encoded_fields [where s = exampleState and ?s1.0 = zeroState
      and t = exampleState13 and ?t1.0 = zeroState13]
  by (simp add: exampleState_def zeroState_def exampleState13_def zeroState13_def)

text \<open>
  C8, as the specification states it, fails on two TLS 1.2 states that differ in
  \<open>usedOldKey\<close> only: \<^verbatim>\<open>equal\<close> returns true.
\<close>

theorem equal_ignores_usedOldKey_counterexample:
  "sessionState_equal exampleState (PtrSessionState (exampleState\<lparr>usedOldKey := False\<rparr>)) =
     Some True \<and>
   usedOldKey exampleState \<noteq> usedOldKey (exampleState\<lparr>usedOldKey := False\<rparr>)"
  by (simp add: sessionState_equal_iff exampleState_def)

text \<open>
  C5. Decode safety: for every input, \<^verbatim>\<open>unmarshal\<close> of either shape returns a result
  (the decoders are total functions, and the result is never the panic of an index or a
  slice out of range), and it returns failure whenever a length prefix declares more bytes
  than remain: the length of the master secret, the length of a certificate read as an
  unsigned 32-bit value (so also one that is negative as a signed 32-bit \<^verbatim>\<open>int\<close>), and
  the lengths of the resumption secret, the ALPN protocol and the server name.
\<close>

theorem decode_safety:
  "(\<exists>ok s'. sessionState_unmarshal a r data = Some (ok, s')) \<and>
   (\<exists>ok t'. sessionState13_unmarshal a u data = Some (ok, t')) \<and>
   (length hdr = 4 \<and> int (length rest) < uint (get16 l0 l1) \<longrightarrow>
      (\<exists>s'. sessionState_unmarshal a r (hdr @ l0 # l1 # rest) = Some (False, s'))) \<and>
   (length hdr = 4 \<and> length ms < 65536 \<and> n < 65536 \<and> length cs < n \<and>
    list_all (certLenOK a) cs \<and> int (length rest) < uint (get32 c0 c1 c2 c3) \<longrightarrow>
      (\<exists>s'. sessionState_unmarshal a r
         (hdr @ putLen16 (int (length ms)) @ ms @ putLen16 (int n) @ marshalCerts cs @
          c0 # c1 # c2 # c3 # rest) = Some (False, s'))) \<and>
   (length hdr13 = 20 \<and> int (length rest) < uint (get16 l0 l1) \<longrightarrow>
      (\<exists>t'. sessionState13_unmarshal a u (hdr13 @ l0 # l1 # rest) = Some (False, t'))) \<and>
   (length hdr13 = 20 \<and> length rs < 65536 \<and> int (length rest) < uint (get16 l0 l1) \<longrightarrow>
      (\<exists>t'. sessionState13_unmarshal a u
         (hdr13 @ putLen16 (int (length rs)) @ rs @ l0 # l1 # rest) = Some (False, t'))) \<and>
   (length hdr13 = 20 \<and> length rs < 65536 \<and> length alpn < 65536 \<and>
    int (length rest) < uint (get16 l0 l1) \<longrightarrow>
      (\<exists>t'. sessionState13_unmarshal a u
         (hdr13 @ putLen16 (int (length rs)) @ rs @ putLen16 (int (length alpn)) @ alpn @
          l0 # l1 # rest) = Some (False, t')))"
  using unmarshal_total [of a r data] unmarshal13_total [of a u data]
    unmarshal_masterSecret_prefix [of hdr rest l0 l1 a r]
    unmarshal_cert_prefix [of hdr ms n cs a rest c0 c1 c2 c3 r]
    unmarshal13_resumptionSecret_prefix [of hdr13 rest l0 l1 a u]
    unmarshal13_alpn_prefix [of hdr13 rs rest l0 l1 a u]
    unmarshal13_SNI_prefix [of hdr13 rs alpn rest l0 l1 a u]
  by blast

theorem decode_safety_witness:
  "(\<exists>ok s'. sessionState_unmarshal Int32 zeroState [3, 3] = Some (ok, s')) \<and>
   (\<exists>ok t'. sessionState13_unmarshal Int32 zeroState13 [3, 3] = Some (ok, t')) \<and>
   (\<exists>s'. sessionState_unmarshal Int32 zeroState [3, 3, 0, 47, 0, 5, 1, 2] = Some (False, s')) \<and>
   (\<exists>s'. sessionState_unmarshal Int32 zeroState
      [3, 3, 0, 47, 0, 1, 7, 0, 1, 255, 255, 255, 255, 1, 2] = Some (False, s')) \<and>
   (\<exists>t'. sessionState13_unmarshal Int32 zeroState13 (replicate 20 0 @ [0, 5, 1, 2]) =
      Some (False, t')) \<and>
   (\<exists>t'. sessionState13_unmarshal Int32 zeroState13 (replicate 20 0 @ [0, 1, 7, 0, 5, 1, 2]) =
      Some (False, t')) \<and>
   (\<exists>t'. sessionState13_unmarshal Int32 zeroState13
      (replicate 20 0 @ [0, 1, 7, 0, 1, 8, 0, 5, 1, 2]) = Some (False, t'))"
  using decode_safety [where a = Int32 and r = zeroState and u = zeroState13 and data = "[3, 3]"
      and hdr = "[3, 3, 0, 47]" and ?l0.0 = 0 and ?l1.0 = 5 and rest = "[1, 2]"
      and ms = "[7]" and n = 1 and cs = "[]" and ?c0.0 = 255 and ?c1.0 = 255 and ?c2.0 = 255
      and ?c3.0 = 255 and ?hdr13.0 = "replicate 20 0" and rs = "[7]" and alpn = "[8]"]
  by (simp add: declared_lengths putLen16_def byte_of_int_def)

text \<open>
  C2. Seal/open round-trip with old-key reporting: when \<^verbatim>\<open>encryptTicket\<close> seals a
  payload with the key at index 0 of its key list, the random source supplying the 16
  bytes of the IV, the key having a key name of 16 bytes and a valid AES key, and the tag
  of HMAC-SHA256 having 32 bytes, then \<^verbatim>\<open>decryptTicket\<close>, with tickets not disabled and a
  key list that holds this key at index \<open>i\<close>, no earlier key having its name, returns
  exactly the payload and \<open>usedOldKey = (i > 0)\<close>.
\<close>

theorem seal_open_roundtrip:
  assumes "16 \<le> length (rand ce)"
    and "ticketKeys ce \<noteq> []" and "ticketKeys ce ! 0 = key"
    and "length (keyName key) = 16"
    and "newCipher (aesKey key) \<noteq> None"
    and "\<forall>k m. length (hmacSha256 P k m) = 32"
    and "\<not> SessionTicketsDisabled cd"
    and "i < length (ticketKeys cd)" and "ticketKeys cd ! i = key"
    and "\<forall>j<i. keyName (ticketKeys cd ! j) \<noteq> keyName key"
  shows "\<exists>t. encryptTicket P ce serialized = Some (Inr t) \<and>
             decryptTicket P cd t = Some (Some serialized, i > 0)"
  using assms by (rule encrypt_then_decrypt)

theorem seal_open_roundtrip_witness:
  "(\<exists>t. encryptTicket examplePrimitives sealConfig [10, 20, 30] = Some (Inr t) \<and>
        decryptTicket examplePrimitives sealConfig t = Some (Some [10, 20, 30], False)) \<and>
   (\<exists>t. encryptTicket examplePrimitives sealConfig [10, 20, 30] = Some (Inr t) \<and>
        decryptTicket examplePrimitives rotatedConfig t = Some (Some [10, 20, 30], True))"
proof -
  have k: "length (keyName currentKey) = 16" "newCipher (aesKey currentKey) \<noteq> None"
    by (simp_all add: currentKey_def newCipher_def len_def)
  have s: "16 \<le> length (rand sealConfig)" "ticketKeys sealConfig \<noteq> []"
    "ticketKeys sealConfig ! 0 = currentKey" "\<not> SessionTicketsDisabled sealConfig"
    "0 < length (ticketKeys sealConfig)"
    "\<forall>j<0. keyName (ticketKeys sealConfig ! j) \<noteq> keyName currentKey"
    by (simp_all add: sealConfig_def)
  have r: "\<not> SessionTicketsDisabled rotatedConfig" "1 < length (ticketKeys rotatedConfig)"
    "ticketKeys rotatedConfig ! 1 = currentKey"
    "\<forall>j<1. keyName (ticketKeys rotatedConfig ! j) \<noteq> keyName currentKey"
    by (simp_all add: rotatedConfig_def newerKey_def currentKey_def)
  show ?thesis
    using seal_open_roundtrip [OF s(1,2,3) k examplePrimitives_hmac s(4,5,3,6), of "[10, 20, 30]"]
      seal_open_roundtrip [OF s(1,2,3) k examplePrimitives_hmac r, of "[10, 20, 30]"]
    by simp
qed

text \<open>
  C3. Uniform failure signalling: every rejection path of \<^verbatim>\<open>decryptTicket\<close> returns
  the same result, no payload and \<open>usedOldKey = false\<close>: when tickets are disabled
  (for every ticket, authentic ones too), when the ticket is shorter than the key name,
  the IV and the MAC together, when no key has the key name of the ticket, when the
  recomputed MAC differs from the MAC of the ticket, and when the cipher cannot be made
  from the AES key. \<^verbatim>\<open>decryptTicket\<close> always returns, and never returns
  \<open>usedOldKey = true\<close> without a payload.
\<close>

theorem decryptTicket_rejection_uniform:
  "(SessionTicketsDisabled c \<longrightarrow> decryptTicket P c e = Some (None, False)) \<and>
   (len e < ticketKeyNameLen + aesBlockSize + sha256Size \<longrightarrow>
      decryptTicket P c e = Some (None, False)) \<and>
   ((\<forall>key\<in>set (ticketKeys c). keyName key \<noteq> take 16 e) \<longrightarrow>
      decryptTicket P c e = Some (None, False)) \<and>
   (i < length (ticketKeys c) \<and> keyName (ticketKeys c ! i) = take 16 e \<and>
    (\<forall>j<i. keyName (ticketKeys c ! j) \<noteq> take 16 e) \<and>
    hmacSha256 P (hmacKey (ticketKeys c ! i)) (take (length e - 32) e) \<noteq> drop (length e - 32) e \<longrightarrow>
      decryptTicket P c e = Some (None, False)) \<and>
   (i < length (ticketKeys c) \<and> keyName (ticketKeys c ! i) = take 16 e \<and>
    (\<forall>j<i. keyName (ticketKeys c ! j) \<noteq> take 16 e) \<and>
    newCipher (aesKey (ticketKeys c ! i)) = None \<longrightarrow>
      decryptTicket P c e = Some (None, False)) \<and>
   (\<exists>p b. decryptTicket P c e = Some (p, b) \<and> (p = None \<longrightarrow> \<not> b))"
proof (intro conjI impI)
  assume "SessionTicketsDisabled c"
  then show "decryptTicket P c e = Some (None, False)"
    by (simp add: decryptTicket_cases)
next
  assume "len e < ticketKeyNameLen + aesBlockSize + sha256Size"
  then show "decryptTicket P c e = Some (None, False)"
    by (simp add: decryptTicket_cases len_def ticketKeyNameLen_def aesBlockSize_def sha256Size_def)
next
  assume "\<forall>key\<in>set (ticketKeys c). keyName key \<noteq> take 16 e"
  then have "findKey (take 16 e) (ticketKeys c) 0 = -1"
    by (rule findKey_none)
  then show "decryptTicket P c e = Some (None, False)"
    by (simp add: decryptTicket_cases)
next
  assume h: "i < length (ticketKeys c) \<and> keyName (ticketKeys c ! i) = take 16 e \<and>
    (\<forall>j<i. keyName (ticketKeys c ! j) \<noteq> take 16 e) \<and>
    hmacSha256 P (hmacKey (ticketKeys c ! i)) (take (length e - 32) e) \<noteq> drop (length e - 32) e"
  then have "findKey (take 16 e) (ticketKeys c) 0 = 0 + int i"
    by (intro findKey_first) simp_all
  then show "decryptTicket P c e = Some (None, False)"
    using h by (simp add: decryptTicket_cases Let_def)
next
  assume h: "i < length (ticketKeys c) \<and> keyName (ticketKeys c ! i) = take 16 e \<and>
    (\<forall>j<i. keyName (ticketKeys c ! j) \<noteq> take 16 e) \<and>
    newCipher (aesKey (ticketKeys c ! i)) = None"
  then have "findKey (take 16 e) (ticketKeys c) 0 = 0 + int i"
    by (intro findKey_first) simp_all
  then show "decryptTicket P c e = Some (None, False)"
    using h by (simp add: decryptTicket_cases Let_def)
next
  show "\<exists>p b. decryptTicket P c e = Some (p, b) \<and> (p = None \<longrightarrow> \<not> b)"
    by (auto simp: decryptTicket_cases Let_def)
qed

theorem decryptTicket_rejection_uniform_witness:
  "(\<exists>t. encryptTicket examplePrimitives sealConfig [10, 20, 30] = Some (Inr t) \<and>
        decryptTicket examplePrimitives sealConfig t = Some (Some [10, 20, 30], False) \<and>
        decryptTicket examplePrimitives disabledConfig t = Some (None, False)) \<and>
   decryptTicket examplePrimitives sealConfig [1, 2, 3] = Some (None, False) \<and>
   decryptTicket examplePrimitives sealConfig unknownKeyTicket = Some (None, False) \<and>
   decryptTicket examplePrimitives sealConfig forgedTicket = Some (None, False) \<and>
   decryptTicket examplePrimitives badCipherConfig badCipherTicket = Some (None, False)"
proof -
  obtain t where t: "encryptTicket examplePrimitives sealConfig [10, 20, 30] = Some (Inr t)"
      "decryptTicket examplePrimitives sealConfig t = Some (Some [10, 20, 30], False)"
    using example_seal_open by blast
  have "SessionTicketsDisabled disabledConfig"
    by (simp add: disabledConfig_def)
  then have 1: "decryptTicket examplePrimitives disabledConfig t = Some (None, False)"
    using decryptTicket_rejection_uniform [of disabledConfig examplePrimitives t] by blast
  have "len [1, 2, 3 :: byte] < ticketKeyNameLen + aesBlockSize + sha256Size"
    by (simp add: len_def ticketKeyNameLen_def aesBlockSize_def sha256Size_def)
  then have 2: "decryptTicket examplePrimitives sealConfig [1, 2, 3] = Some (None, False)"
    using decryptTicket_rejection_uniform [of sealConfig examplePrimitives "[1, 2, 3]"] by blast
  have "\<forall>key\<in>set (ticketKeys sealConfig). keyName key \<noteq> take 16 unknownKeyTicket"
    by (simp add: sealConfig_def currentKey_def unknownKeyTicket_def)
  then have 3: "decryptTicket examplePrimitives sealConfig unknownKeyTicket = Some (None, False)"
    using decryptTicket_rejection_uniform [of sealConfig examplePrimitives unknownKeyTicket]
    by blast
  have "0 < length (ticketKeys sealConfig) \<and>
    keyName (ticketKeys sealConfig ! 0) = take 16 forgedTicket \<and>
    (\<forall>j<0. keyName (ticketKeys sealConfig ! j) \<noteq> take 16 forgedTicket) \<and>
    hmacSha256 examplePrimitives (hmacKey (ticketKeys sealConfig ! 0))
      (take (length forgedTicket - 32) forgedTicket) \<noteq>
    drop (length forgedTicket - 32) forgedTicket"
    using forgedTicket_mac by (simp add: sealConfig_def) (simp add: currentKey_def forgedTicket_def)
  then have 4: "decryptTicket examplePrimitives sealConfig forgedTicket = Some (None, False)"
    using decryptTicket_rejection_uniform [of sealConfig examplePrimitives forgedTicket 0]
    by blast
  have "0 < length (ticketKeys badCipherConfig) \<and>
    keyName (ticketKeys badCipherConfig ! 0) = take 16 badCipherTicket \<and>
    (\<forall>j<0. keyName (ticketKeys badCipherConfig ! j) \<noteq> take 16 badCipherTicket) \<and>
    newCipher (aesKey (ticketKeys badCipherConfig ! 0)) = None"
    by (simp add: badCipherConfig_def badCipherKey_def badCipherTicket_def newCipher_def len_def)
  then have 5: "decryptTicket examplePrimitives badCipherConfig badCipherTicket = Some (None, False)"
    using decryptTicket_rejection_uniform [of badCipherConfig examplePrimitives badCipherTicket 0]
    by blast
  show ?thesis using t 1 2 3 4 5 by blast
qed

end
